theory Spec2Isabelle
  imports Main "HOL-Library.Word"
begin

section \<open>The serial endpoints (the platform's \<^verbatim>\<open>HardwareSerial\<close> objects)\<close>

text \<open>
  The firmware talks to two serial endpoints, \<^verbatim>\<open>Serial\<close> (USB, the Near side) and
  \<^verbatim>\<open>Serial1\<close> (the inter-chip UART, the Far side). The platform class is not part of
  the repository; an endpoint is modelled by what the firmware can observe and cause:
  the bytes buffered for reading, the bytes the endpoint has accepted for sending, the
  calls made on it in order, and its configuration. Its primitives follow the
  specification's platform boundary (section 6): a bytes-available query, a bounded
  read and a bounded write that return the actual count, a write-capacity query and a
  flush.
\<close>

type_synonym byte = "8 word"

datatype event =
    Read nat nat      \<comment> \<open>\<^verbatim>\<open>readBytes\<close>: bytes requested, bytes returned\<close>
  | Write nat nat     \<comment> \<open>\<^verbatim>\<open>write\<close>: bytes requested, bytes accepted\<close>
  | Flush bool        \<comment> \<open>\<^verbatim>\<open>flush(w)\<close>: the flag passed\<close>
  | FlushDefault      \<comment> \<open>\<^verbatim>\<open>flush()\<close> without a flag\<close>

datatype frame = SERIAL_8N1

record endpoint =
  rx :: "byte list"            \<comment> \<open>received bytes not yet read, oldest first\<close>
  tx :: "byte list"            \<comment> \<open>bytes accepted by \<^verbatim>\<open>write\<close>, oldest first\<close>
  evs :: "event list"          \<comment> \<open>calls made on the endpoint, oldest first\<close>
  begins :: nat                \<comment> \<open>number of \<^verbatim>\<open>begin\<close> calls\<close>
  baud :: nat
  framing :: "frame option"
  rx_pin :: "nat option"
  tx_pin :: "nat option"
  invert :: bool
  begin_arg6 :: "nat option"   \<comment> \<open>sixth argument of the last \<^verbatim>\<open>begin\<close>\<close>
  rxbuf_size :: nat
  txbuf_size :: nat
  resizes :: nat               \<comment> \<open>number of buffer-size calls\<close>

text \<open>
  How many bytes a read hands over and how many a write accepts is the platform's
  choice. A \<open>device\<close> fixes these choices for one endpoint: the k-th read returns at
  most \<open>rd_grant k\<close> bytes (but never comes back empty when it is asked for a byte
  and one is buffered), the k-th write accepts at most \<open>wr_grant k\<close> bytes, possibly
  none, and \<open>wr_room k\<close> is what \<^verbatim>\<open>availableForWrite\<close> reports before the k-th write.
\<close>

record device =
  rd_grant :: "nat \<Rightarrow> nat"
  wr_grant :: "nat \<Rightarrow> nat"
  wr_room :: "nat \<Rightarrow> nat"

fun is_read :: "event \<Rightarrow> bool" where
  "is_read (Read _ _) = True"
| "is_read _ = False"

fun is_write :: "event \<Rightarrow> bool" where
  "is_write (Write _ _) = True"
| "is_write _ = False"

fun is_flush :: "event \<Rightarrow> bool" where
  "is_flush (Flush _) = True"
| "is_flush _ = False"

fun accepted :: "event \<Rightarrow> nat" where
  "accepted (Write r k) = k"
| "accepted _ = 0"

fun requested :: "event \<Rightarrow> nat" where
  "requested (Write r k) = r"
| "requested _ = 0"

definition reads_done :: "endpoint \<Rightarrow> nat" where
  "reads_done e = length (filter is_read (evs e))"

definition writes_done :: "endpoint \<Rightarrow> nat" where
  "writes_done e = length (filter is_write (evs e))"

definition available :: "endpoint \<Rightarrow> nat" where
  "available e = length (rx e)"

definition availableForWrite :: "device \<Rightarrow> endpoint \<Rightarrow> nat" where
  "availableForWrite d e = wr_room d (writes_done e)"

text \<open>
  The platform's bounded read: \<^verbatim>\<open>readBytes(buf, n)\<close> stores the oldest \<open>k\<close> buffered bytes
  at the start of \<open>buf\<close> and returns \<open>k\<close>, where \<open>k\<close> is at most \<open>n\<close>, at most what is
  buffered and at most what the device grants. A grant is one byte at least: the
  platform's read takes bytes from the receive buffer until it has \<open>n\<close> of them or its
  timeout ends, so it does not come back empty when a byte is buffered and \<open>n\<close> is not
  zero. The result is the count, the buffer and the endpoint.
\<close>

definition readBytes :: "device \<Rightarrow> byte list \<Rightarrow> nat \<Rightarrow> endpoint \<Rightarrow> nat \<times> byte list \<times> endpoint" where
  "readBytes d buf n e =
     (let k = min (min n (length (rx e))) (max 1 (rd_grant d (reads_done e)))
      in (k, take k (rx e) @ drop k buf,
          e\<lparr>rx := drop k (rx e), evs := evs e @ [Read n k]\<rparr>))"

text \<open>
  The platform's bounded write: \<^verbatim>\<open>write(p, len)\<close> accepts the first \<open>k\<close> of the \<open>len\<close>
  bytes at \<open>p\<close> and returns \<open>k\<close>, the count it accepted, where \<open>k\<close> is at most \<open>len\<close> and
  at most what the device grants, possibly zero. \<open>flush\<close> is taken as the
  specification describes it, a request to send what has been accepted: it is recorded
  with its flag and leaves the buffered and the accepted bytes as they are. The
  configuration calls are recorded with their arguments.
\<close>

definition write_serial :: "device \<Rightarrow> byte list \<Rightarrow> nat \<Rightarrow> endpoint \<Rightarrow> nat \<times> endpoint" where
  "write_serial d p len e =
     (let k = min len (wr_grant d (writes_done e))
      in (k, e\<lparr>tx := tx e @ take k p, evs := evs e @ [Write len k]\<rparr>))"

definition flush :: "bool \<Rightarrow> endpoint \<Rightarrow> endpoint" where
  "flush w e = e\<lparr>evs := evs e @ [Flush w]\<rparr>"

definition flush_default :: "endpoint \<Rightarrow> endpoint" where
  "flush_default e = e\<lparr>evs := evs e @ [FlushDefault]\<rparr>"

definition begin_serial :: "nat \<Rightarrow> frame \<Rightarrow> nat \<Rightarrow> nat \<Rightarrow> bool \<Rightarrow> nat \<Rightarrow> endpoint \<Rightarrow> endpoint" where
  "begin_serial b f rxp txp iv a6 e =
     e\<lparr>begins := Suc (begins e), baud := b, framing := Some f, rx_pin := Some rxp,
       tx_pin := Some txp, invert := iv, begin_arg6 := Some a6\<rparr>"

definition setRxBufferSize :: "nat \<Rightarrow> endpoint \<Rightarrow> endpoint" where
  "setRxBufferSize n e = e\<lparr>rxbuf_size := n, resizes := Suc (resizes e)\<rparr>"

definition setTxBufferSize :: "nat \<Rightarrow> endpoint \<Rightarrow> endpoint" where
  "setTxBufferSize n e = e\<lparr>txbuf_size := n, resizes := Suc (resizes e)\<rparr>"

section \<open>Configuration (config.h)\<close>

definition WIRE_TX_PIN :: nat where "WIRE_TX_PIN = 18"
definition WIRE_RX_PIN :: nat where "WIRE_RX_PIN = 19"
definition WIRE_BAUD :: nat where "WIRE_BAUD = 115200"
definition BRIDGE_BUF_SZ :: nat where "BRIDGE_BUF_SZ = 32768"

section \<open>The firmware state\<close>

text \<open>
  The globals and function-local statics of wire.cpp, the two endpoints, and what the
  firmware does besides serial traffic: the arguments of its \<^verbatim>\<open>delay\<close> calls and the
  lines it prints on the console. The console library is not in the sources; what
  \<^verbatim>\<open>kon_printf\<close> prints is recorded apart from the serial traffic, as the format string
  and its arguments.
\<close>

record firmware =
  wire_inited :: bool
  Serial :: endpoint
  Serial1 :: endpoint
  receive_buf :: "byte list"       \<comment> \<open>\<^verbatim>\<open>buf\<close> of \<^verbatim>\<open>run_receive_bridge\<close>\<close>
  send_buf :: "byte list"          \<comment> \<open>\<^verbatim>\<open>buf\<close> of \<^verbatim>\<open>run_send_bridge\<close>\<close>
  buf_wire_to_usb :: "byte list"
  buf_usb_to_wire :: "byte list"
  delays :: "nat list"
  console :: "(string \<times> nat list) list"   \<comment> \<open>format strings printed, with their arguments\<close>

record platform =
  near :: device    \<comment> \<open>behaviour of \<^verbatim>\<open>Serial\<close>\<close>
  far :: device     \<comment> \<open>behaviour of \<^verbatim>\<open>Serial1\<close>\<close>

definition delay :: "nat \<Rightarrow> firmware \<Rightarrow> firmware" where
  "delay ms s = s\<lparr>delays := delays s @ [ms]\<rparr>"

definition kon_printf :: "string \<Rightarrow> nat list \<Rightarrow> firmware \<Rightarrow> firmware" where
  "kon_printf fmt args s = s\<lparr>console := console s @ [(fmt, args)]\<rparr>"

section \<open>wire.cpp\<close>

text \<open>\<^verbatim>\<open>write_chunk\<close> (lines 7 to 14) and \<^verbatim>\<open>wire_init\<close> (lines 16 to 28).\<close>

definition write_chunk :: "device \<Rightarrow> byte list \<Rightarrow> nat \<Rightarrow> endpoint \<Rightarrow> nat \<times> endpoint" where
  "write_chunk d p n s =
     (let room = availableForWrite d s;
          send = n;
          send = (if room \<noteq> 0 \<and> send > room then room else send);
          send = (if send > 256 then 256 else send)
      in write_serial d p send s)"

definition wire_init :: "firmware \<Rightarrow> firmware" where
  "wire_init s =
     (if wire_inited s then s
      else
        let WIRE_RXBUF = 32768;
            s = s\<lparr>Serial1 := begin_serial WIRE_BAUD SERIAL_8N1 WIRE_RX_PIN WIRE_TX_PIN False
                                WIRE_RXBUF (Serial1 s)\<rparr>;
            s = s\<lparr>Serial1 := setRxBufferSize 32768 (Serial1 s)\<rparr>;
            s = s\<lparr>Serial1 := setTxBufferSize 32768 (Serial1 s)\<rparr>;
            s = s\<lparr>Serial := setRxBufferSize 32768 (Serial s)\<rparr>;
            s = s\<lparr>Serial := setTxBufferSize 32768 (Serial s)\<rparr>
        in s\<lparr>wire_inited := True\<rparr>)"

text \<open>
  The inner loop \<^verbatim>\<open>while (off < n) off += sink.write(buf + off, n - off);\<close> (lines 40,
  56, 75 and 84). It has no bound on its iterations, so it is a partial function:
  \<open>None\<close> is not returning.
\<close>

partial_function (option) write_all ::
    "device \<Rightarrow> byte list \<Rightarrow> nat \<Rightarrow> nat \<Rightarrow> endpoint \<Rightarrow> endpoint option" where
  "write_all d buf n off snk =
     (if off < n then
        (case write_serial d (drop off buf) (n - off) snk of
           (k, snk') \<Rightarrow> write_all d buf n (off + k) snk')
      else Some snk)"

text \<open>
  The block that every bridge loop runs for one direction, written out four times in
  wire.cpp (lines 35 to 42, 51 to 58, 70 to 77 and 79 to 86) with its own source, sink
  and buffer: ask the source what is available; if that is not zero, clamp it to the
  size of the buffer, read, write everything read to the sink, and call \<^verbatim>\<open>flush(false)\<close>
  on the sink. The result is the source, the sink and the buffer afterwards.
\<close>

definition pump ::
    "device \<Rightarrow> device \<Rightarrow> endpoint \<Rightarrow> endpoint \<Rightarrow> byte list \<Rightarrow> (endpoint \<times> endpoint \<times> byte list) option" where
  "pump dsrc dsnk src snk buf =
     (let n = available src in
      if n \<noteq> 0 then
        let n = (if n > length buf then length buf else n) in
        (case readBytes dsrc buf n src of
           (n, buf, src) \<Rightarrow>
             (case write_all dsnk buf n 0 snk of
                None \<Rightarrow> None
              | Some snk \<Rightarrow> Some (src, flush False snk, buf)))
      else Some (src, snk, buf))"

text \<open>
  One pass of the body of each \<^verbatim>\<open>for (;;)\<close> loop: \<open>receive_pass\<close> is lines 35 to 43,
  \<open>send_pass\<close> lines 51 to 59, and \<open>bidi_pass\<close> lines 70 to 88, made of \<open>wire_to_usb\<close>
  (lines 70 to 77), \<open>usb_to_wire\<close> (lines 79 to 86) and \<^verbatim>\<open>delay(0)\<close>.
\<close>

definition receive_pass :: "platform \<Rightarrow> firmware \<Rightarrow> firmware option" where
  "receive_pass pl s =
     (case pump (far pl) (near pl) (Serial1 s) (Serial s) (receive_buf s) of
        None \<Rightarrow> None
      | Some (src, snk, buf) \<Rightarrow>
          Some (delay 0 (s\<lparr>Serial := snk, Serial1 := src, receive_buf := buf\<rparr>)))"

definition send_pass :: "platform \<Rightarrow> firmware \<Rightarrow> firmware option" where
  "send_pass pl s =
     (case pump (near pl) (far pl) (Serial s) (Serial1 s) (send_buf s) of
        None \<Rightarrow> None
      | Some (src, snk, buf) \<Rightarrow>
          Some (delay 0 (s\<lparr>Serial := src, Serial1 := snk, send_buf := buf\<rparr>)))"

definition wire_to_usb :: "platform \<Rightarrow> firmware \<Rightarrow> firmware option" where
  "wire_to_usb pl s =
     (case pump (far pl) (near pl) (Serial1 s) (Serial s) (buf_wire_to_usb s) of
        None \<Rightarrow> None
      | Some (src, snk, buf) \<Rightarrow>
          Some (s\<lparr>Serial := snk, Serial1 := src, buf_wire_to_usb := buf\<rparr>))"

definition usb_to_wire :: "platform \<Rightarrow> firmware \<Rightarrow> firmware option" where
  "usb_to_wire pl s =
     (case pump (near pl) (far pl) (Serial s) (Serial1 s) (buf_usb_to_wire s) of
        None \<Rightarrow> None
      | Some (src, snk, buf) \<Rightarrow>
          Some (s\<lparr>Serial := src, Serial1 := snk, buf_usb_to_wire := buf\<rparr>))"

definition bidi_pass :: "platform \<Rightarrow> firmware \<Rightarrow> firmware option" where
  "bidi_pass pl s =
     (case wire_to_usb pl s of
        None \<Rightarrow> None
      | Some s \<Rightarrow>
          (case usb_to_wire pl s of
             None \<Rightarrow> None
           | Some s \<Rightarrow> Some (delay 0 s)))"

text \<open>
  \<^verbatim>\<open>for (;;) body\<close>: the loop has no exit, so the only way to a result would be through
  the recursion. \<open>passes\<close> is the state after the first \<open>k\<close> passes of such a loop.
\<close>

partial_function (option) forever :: "('s \<Rightarrow> 's option) \<Rightarrow> 's \<Rightarrow> unit option" where
  "forever body s = (case body s of None \<Rightarrow> None | Some s' \<Rightarrow> forever body s')"

fun passes :: "('s \<Rightarrow> 's option) \<Rightarrow> nat \<Rightarrow> 's \<Rightarrow> 's option" where
  "passes body 0 s = Some s"
| "passes body (Suc k) s = (case body s of None \<Rightarrow> None | Some s' \<Rightarrow> passes body k s')"

text \<open>
  The three bridges: \<^verbatim>\<open>wire_init()\<close>, then the loop. \<open>run_receive_bridge_passes\<close> and
  its siblings give the state after the first \<open>k\<close> passes of the bridge's loop.
\<close>

definition run_receive_bridge :: "platform \<Rightarrow> firmware \<Rightarrow> unit option" where
  "run_receive_bridge pl s = forever (receive_pass pl) (wire_init s)"

definition run_send_bridge :: "platform \<Rightarrow> firmware \<Rightarrow> unit option" where
  "run_send_bridge pl s = forever (send_pass pl) (wire_init s)"

definition run_bidi_bridge :: "platform \<Rightarrow> firmware \<Rightarrow> unit option" where
  "run_bidi_bridge pl s = forever (bidi_pass pl) (wire_init s)"

definition run_receive_bridge_passes :: "platform \<Rightarrow> nat \<Rightarrow> firmware \<Rightarrow> firmware option" where
  "run_receive_bridge_passes pl k s = passes (receive_pass pl) k (wire_init s)"

definition run_send_bridge_passes :: "platform \<Rightarrow> nat \<Rightarrow> firmware \<Rightarrow> firmware option" where
  "run_send_bridge_passes pl k s = passes (send_pass pl) k (wire_init s)"

definition run_bidi_bridge_passes :: "platform \<Rightarrow> nat \<Rightarrow> firmware \<Rightarrow> firmware option" where
  "run_bidi_bridge_passes pl k s = passes (bidi_pass pl) k (wire_init s)"

section \<open>commands.cpp\<close>

text \<open>
  Each handler prints two lines, flushes the console, waits, and calls a bridge; its
  result is the status it returns, \<open>None\<close> when it does not return. \<open>cmd_receive_enter\<close>
  and \<open>cmd_send_enter\<close> are the handlers up to the bridge call, and \<open>cmd_receive_passes\<close>
  and \<open>cmd_send_passes\<close> give the state after the first \<open>k\<close> passes of the loop the
  handler has entered.
\<close>

definition cmd_receive_enter :: "firmware \<Rightarrow> firmware" where
  "cmd_receive_enter s =
     (let s = kon_printf ''Entering RECEIVE mode (Serial1 -> USB). No further console output.'' [] s;
          s = kon_printf ''Wire: TX=%d RX=%d BAUD=%d. Power-cycle to exit.''
                [WIRE_TX_PIN, WIRE_RX_PIN, WIRE_BAUD] s;
          s = s\<lparr>Serial := flush_default (Serial s)\<rparr>
      in delay 50 s)"

definition cmd_receive :: "platform \<Rightarrow> firmware \<Rightarrow> int option" where
  "cmd_receive pl s =
     (case run_bidi_bridge pl (cmd_receive_enter s) of
        None \<Rightarrow> None
      | Some _ \<Rightarrow> Some 0)"

definition cmd_receive_passes :: "platform \<Rightarrow> nat \<Rightarrow> firmware \<Rightarrow> firmware option" where
  "cmd_receive_passes pl k s = run_bidi_bridge_passes pl k (cmd_receive_enter s)"

definition cmd_send_enter :: "firmware \<Rightarrow> firmware" where
  "cmd_send_enter s =
     (let s = kon_printf ''Entering SEND mode (USB -> Serial1). No further console output.'' [] s;
          s = kon_printf ''Wire: TX=%d RX=%d BAUD=%d. Power-cycle to exit.''
                [WIRE_TX_PIN, WIRE_RX_PIN, WIRE_BAUD] s;
          s = s\<lparr>Serial := flush_default (Serial s)\<rparr>
      in delay 50 s)"

definition cmd_send :: "platform \<Rightarrow> firmware \<Rightarrow> int option" where
  "cmd_send pl s =
     (case run_bidi_bridge pl (cmd_send_enter s) of
        None \<Rightarrow> None
      | Some _ \<Rightarrow> Some 0)"

definition cmd_send_passes :: "platform \<Rightarrow> nat \<Rightarrow> firmware \<Rightarrow> firmware option" where
  "cmd_send_passes pl k s = run_bidi_bridge_passes pl k (cmd_send_enter s)"

section \<open>main.cpp\<close>

text \<open>
  The part of \<^verbatim>\<open>setup()\<close> that configures \<^verbatim>\<open>Serial\<close>: \<^verbatim>\<open>Serial.begin(WIRE_BAUD)\<close> and the two
  buffer-size calls. The console it then starts is outside this development.
\<close>

definition begin_baud :: "nat \<Rightarrow> endpoint \<Rightarrow> endpoint" where
  "begin_baud b e = e\<lparr>begins := Suc (begins e), baud := b\<rparr>"

definition setup_serial :: "firmware \<Rightarrow> firmware" where
  "setup_serial s =
     (let s = s\<lparr>Serial := begin_baud WIRE_BAUD (Serial s)\<rparr>;
          s = s\<lparr>Serial := setRxBufferSize 32768 (Serial s)\<rparr>
      in s\<lparr>Serial := setTxBufferSize 32768 (Serial s)\<rparr>)"

section \<open>Traffic\<close>

text \<open>
  Bytes reach an endpoint's receive buffer from outside, between the firmware's steps.
  \<open>arrive_far\<close> and \<open>arrive_near\<close> deliver a chunk; \<open>receive_feed\<close>, \<open>send_feed\<close> and
  \<open>bidi_feed\<close> run one loop pass after each delivery of a list of deliveries (an empty
  chunk is a pass with no new input).
\<close>

definition arrive :: "byte list \<Rightarrow> endpoint \<Rightarrow> endpoint" where
  "arrive chunk e = e\<lparr>rx := rx e @ chunk\<rparr>"

definition arrive_far :: "byte list \<Rightarrow> firmware \<Rightarrow> firmware" where
  "arrive_far chunk s = s\<lparr>Serial1 := arrive chunk (Serial1 s)\<rparr>"

definition arrive_near :: "byte list \<Rightarrow> firmware \<Rightarrow> firmware" where
  "arrive_near chunk s = s\<lparr>Serial := arrive chunk (Serial s)\<rparr>"

fun receive_feed :: "platform \<Rightarrow> byte list list \<Rightarrow> firmware \<Rightarrow> firmware option" where
  "receive_feed pl [] s = Some s"
| "receive_feed pl (c # cs) s =
     (case receive_pass pl (arrive_far c s) of None \<Rightarrow> None | Some s' \<Rightarrow> receive_feed pl cs s')"

fun send_feed :: "platform \<Rightarrow> byte list list \<Rightarrow> firmware \<Rightarrow> firmware option" where
  "send_feed pl [] s = Some s"
| "send_feed pl (c # cs) s =
     (case send_pass pl (arrive_near c s) of None \<Rightarrow> None | Some s' \<Rightarrow> send_feed pl cs s')"

fun bidi_feed :: "platform \<Rightarrow> (byte list \<times> byte list) list \<Rightarrow> firmware \<Rightarrow> firmware option" where
  "bidi_feed pl [] s = Some s"
| "bidi_feed pl ((cf, cn) # cs) s =
     (case bidi_pass pl (arrive_near cn (arrive_far cf s)) of
        None \<Rightarrow> None
      | Some s' \<Rightarrow> bidi_feed pl cs s')"

section \<open>Concrete states and devices\<close>

text \<open>
  An endpoint nobody has configured or used, the firmware right after reset with
  staging buffers of \<open>b\<close> bytes, and a device that hands over at most \<open>r\<close> bytes per
  read, accepts at most \<open>w\<close> bytes per write and reports \<open>c\<close> bytes of room.
\<close>

definition closed_port :: endpoint where
  "closed_port = \<lparr>rx = [], tx = [], evs = [], begins = 0, baud = 0, framing = None,
     rx_pin = None, tx_pin = None, invert = False, begin_arg6 = None, rxbuf_size = 256,
     txbuf_size = 0, resizes = 0\<rparr>"

definition fresh :: "nat \<Rightarrow> firmware" where
  "fresh b = \<lparr>wire_inited = False, Serial = closed_port, Serial1 = closed_port,
     receive_buf = replicate b 0, send_buf = replicate b 0,
     buf_wire_to_usb = replicate b 0, buf_usb_to_wire = replicate b 0,
     delays = [], console = []\<rparr>"

definition boot :: firmware where
  "boot = fresh BRIDGE_BUF_SZ"

definition steady :: "nat \<Rightarrow> nat \<Rightarrow> nat \<Rightarrow> device" where
  "steady r w c = \<lparr>rd_grant = (\<lambda>_. r), wr_grant = (\<lambda>_. w), wr_room = (\<lambda>_. c)\<rparr>"

text \<open>
  Test traffic: the four bytes \<open>PING\<close>, a platform whose reads hand over at most three
  bytes and whose writes accept at most two, a device whose writes accept nothing, and
  deliveries for the three bridges.
\<close>

definition PING :: "byte list" where
  "PING = [0x50, 0x49, 0x4E, 0x47]"

definition bench :: platform where
  "bench = \<lparr>near = steady 3 2 2, far = steady 3 2 2\<rparr>"

definition stalled :: device where
  "stalled = steady 3 0 0"

definition traffic_far :: "byte list list" where
  "traffic_far = [PING, [], [0x21]]"

definition traffic_both :: "(byte list \<times> byte list) list" where
  "traffic_both = [(PING, [0x41]), ([], [0x42, 0x43]), ([0x21], [])]"

definition traffic_near_only :: "(byte list \<times> byte list) list" where
  "traffic_near_only = [([], [0x41]), ([], [0x42, 0x43])]"

definition traffic_far_only :: "(byte list \<times> byte list) list" where
  "traffic_far_only = [(PING, []), ([0x21], [])]"

section \<open>Derived quantities\<close>

text \<open>
  The number of bytes the read of a pump step returns, when the source has bytes
  buffered: the request is \<open>min available sizeof(buf)\<close>, and the device grants part of it.
\<close>

definition got :: "device \<Rightarrow> endpoint \<Rightarrow> byte list \<Rightarrow> nat" where
  "got dsrc src buf = min (min (length (rx src)) (length buf)) (max 1 (rd_grant dsrc (reads_done src)))"

section \<open>Properties\<close>

subsection \<open>The loops\<close>

lemma forever_None: "forever body s = None"
proof (cases "forever body s")
  case None then show ?thesis .
next
  case (Some y)
  have False
    by (rule forever.raw_induct[where P="\<lambda>_ _ _. False", OF _ Some])
       (auto split: option.splits)
  then show ?thesis ..
qed

lemma write_all_done: "\<not> off < n \<Longrightarrow> write_all d buf n off snk = Some snk"
  by (subst write_all.simps) simp

lemma write_all_step:
  "off < n \<Longrightarrow> write_all d buf n off snk =
     write_all d buf n (off + fst (write_serial d (drop off buf) (n - off) snk))
       (snd (write_serial d (drop off buf) (n - off) snk))"
  by (subst write_all.simps) (simp split: prod.splits)

lemma fst_write_serial: "fst (write_serial d p len e) = min len (wr_grant d (writes_done e))"
  by (simp add: write_serial_def Let_def)

lemma snd_write_serial:
  "snd (write_serial d p len e) =
     e\<lparr>tx := tx e @ take (min len (wr_grant d (writes_done e))) p,
       evs := evs e @ [Write len (min len (wr_grant d (writes_done e)))]\<rparr>"
  by (simp add: write_serial_def Let_def)

lemma writes_done_write:
  "writes_done (snd (write_serial d p len e)) = Suc (writes_done e)"
  by (simp add: snd_write_serial writes_done_def)

lemma take_take_drop:
  "k \<le> m \<Longrightarrow> take k (drop off buf) @ take (m - k) (drop (off + k) buf) = take m (drop off buf)"
  using take_add[of k "m - k" "drop off buf"] by (simp add: add.commute)

text \<open>What a completed write loop leaves behind.\<close>

lemma write_all_result:
  assumes "write_all d buf n off snk = Some snk'"
  shows "\<exists>ws. snk' = snk\<lparr>tx := tx snk @ take (n - off) (drop off buf), evs := evs snk @ ws\<rparr>
            \<and> (\<forall>e\<in>set ws. is_write e) \<and> (off < n \<longrightarrow> ws \<noteq> [])
            \<and> sum_list (map accepted ws) = n - off"
proof (rule write_all.raw_induct[where P="\<lambda>d buf n off snk snk'.
         \<exists>ws. snk' = snk\<lparr>tx := tx snk @ take (n - off) (drop off buf), evs := evs snk @ ws\<rparr>
            \<and> (\<forall>e\<in>set ws. is_write e) \<and> (off < n \<longrightarrow> ws \<noteq> [])
            \<and> sum_list (map accepted ws) = n - off", OF _ assms])
  fix wa d buf n off snk and y :: endpoint
  assume IH: "\<And>d buf n off snk y. wa d buf n off snk = Some y \<Longrightarrow>
         \<exists>ws. y = snk\<lparr>tx := tx snk @ take (n - off) (drop off buf), evs := evs snk @ ws\<rparr>
            \<and> (\<forall>e\<in>set ws. is_write e) \<and> (off < n \<longrightarrow> ws \<noteq> [])
            \<and> sum_list (map accepted ws) = n - off"
    and step: "(if off < n then case write_serial d (drop off buf) (n - off) snk of (k, snk') \<Rightarrow> wa d buf n (off + k) snk' else Some snk) = Some y"
  show "\<exists>ws. y = snk\<lparr>tx := tx snk @ take (n - off) (drop off buf), evs := evs snk @ ws\<rparr>
            \<and> (\<forall>e\<in>set ws. is_write e) \<and> (off < n \<longrightarrow> ws \<noteq> [])
            \<and> sum_list (map accepted ws) = n - off"
  proof (cases "off < n")
    case False
    with step have "y = snk" by simp
    with False show ?thesis by (intro exI[of _ "[]"]) simp
  next
    case True
    let ?k = "min (n - off) (wr_grant d (writes_done snk))"
    let ?s1 = "snd (write_serial d (drop off buf) (n - off) snk)"
    from step True have "wa d buf n (off + fst (write_serial d (drop off buf) (n - off) snk)) ?s1 = Some y"
      by (simp split: prod.splits)
    then have "wa d buf n (off + ?k) ?s1 = Some y"
      by (simp only: fst_write_serial)
    from IH[OF this] obtain ws where
      y: "y = ?s1\<lparr>tx := tx ?s1 @ take (n - (off + ?k)) (drop (off + ?k) buf), evs := evs ?s1 @ ws\<rparr>"
      and w: "\<forall>e\<in>set ws. is_write e" and a: "sum_list (map accepted ws) = n - (off + ?k)" by blast
    have "take ?k (drop off buf) @ take (n - off - ?k) (drop (off + ?k) buf) = take (n - off) (drop off buf)"
      by (rule take_take_drop) simp
    then have "y = snk\<lparr>tx := tx snk @ take (n - off) (drop off buf),
                      evs := evs snk @ (Write (n - off) ?k # ws)\<rparr>"
      using y by (simp add: snd_write_serial)
    moreover have "sum_list (map accepted (Write (n - off) ?k # ws)) = n - off"
      using a by simp
    ultimately show ?thesis using w by (intro exI[of _ "Write (n - off) ?k # ws"]) simp
  qed
qed

lemma write_all_returns_if:
  "n - off \<le> (\<Sum>i<m. wr_grant d (writes_done snk + i)) \<Longrightarrow>
     \<exists>snk'. write_all d buf n off snk = Some snk'"
proof (induction m arbitrary: off snk)
  case 0
  then have "\<not> off < n" by simp
  then show ?case by (simp add: write_all_done)
next
  case (Suc m)
  show ?case
  proof (cases "off < n")
    case False
    then show ?thesis by (simp add: write_all_done)
  next
    case True
    let ?k = "min (n - off) (wr_grant d (writes_done snk))"
    let ?s1 = "snd (write_serial d (drop off buf) (n - off) snk)"
    have "(\<Sum>i<Suc m. wr_grant d (writes_done snk + i))
            = wr_grant d (writes_done snk) + (\<Sum>i<m. wr_grant d (writes_done ?s1 + i))"
      by (subst sum.lessThan_Suc_shift) (simp add: writes_done_write)
    with Suc.prems have "n - off \<le> wr_grant d (writes_done snk) + (\<Sum>i<m. wr_grant d (writes_done ?s1 + i))"
      by (simp only:)
    then have "n - (off + ?k) \<le> (\<Sum>i<m. wr_grant d (writes_done ?s1 + i))"
      by arith
    from Suc.IH[OF this] show ?thesis
      by (simp add: write_all_step[OF True] fst_write_serial)
  qed
qed

lemma write_all_returns_only_if:
  assumes "write_all d buf n off snk = Some snk'"
  shows "\<exists>m. n - off \<le> (\<Sum>i<m. wr_grant d (writes_done snk + i))"
proof (rule write_all.raw_induct[where P="\<lambda>d buf n off snk snk'.
         \<exists>m. n - off \<le> (\<Sum>i<m. wr_grant d (writes_done snk + i))", OF _ assms])
  fix wa d buf n off snk and y :: endpoint
  assume IH: "\<And>d buf n off snk y. wa d buf n off snk = Some y \<Longrightarrow>
         \<exists>m. n - off \<le> (\<Sum>i<m. wr_grant d (writes_done snk + i))"
    and step: "(if off < n then case write_serial d (drop off buf) (n - off) snk of (k, snk') \<Rightarrow> wa d buf n (off + k) snk' else Some snk) = Some y"
  show "\<exists>m. n - off \<le> (\<Sum>i<m. wr_grant d (writes_done snk + i))"
  proof (cases "off < n")
    case False
    then show ?thesis by (intro exI[of _ 0]) simp
  next
    case True
    let ?k = "min (n - off) (wr_grant d (writes_done snk))"
    let ?s1 = "snd (write_serial d (drop off buf) (n - off) snk)"
    from step True have "wa d buf n (off + fst (write_serial d (drop off buf) (n - off) snk)) ?s1 = Some y"
      by (simp split: prod.splits)
    then have "wa d buf n (off + ?k) ?s1 = Some y"
      by (simp only: fst_write_serial)
    from IH[OF this] obtain m where
      m: "n - (off + ?k) \<le> (\<Sum>i<m. wr_grant d (writes_done ?s1 + i))" by blast
    have "(\<Sum>i<Suc m. wr_grant d (writes_done snk + i))
            = wr_grant d (writes_done snk) + (\<Sum>i<m. wr_grant d (writes_done ?s1 + i))"
      by (subst sum.lessThan_Suc_shift) (simp add: writes_done_write)
    moreover from m have "n - off \<le> wr_grant d (writes_done snk) + (\<Sum>i<m. wr_grant d (writes_done ?s1 + i))"
      by arith
    ultimately have "n - off \<le> (\<Sum>i<Suc m. wr_grant d (writes_done snk + i))"
      by (simp only:)
    then show ?thesis by blast
  qed
qed

lemma write_all_progress:
  assumes g: "\<forall>k. 1 \<le> wr_grant d k"
  shows "\<exists>snk'. write_all d buf n off snk = Some snk'"
proof -
  have "(\<Sum>i<n - off. (1::nat)) \<le> (\<Sum>i<n - off. wr_grant d (writes_done snk + i))"
    by (rule sum_mono) (use g in simp)
  then have "n - off \<le> (\<Sum>i<n - off. wr_grant d (writes_done snk + i))" by simp
  then show ?thesis by (rule write_all_returns_if)
qed

lemma write_all_stuck:
  assumes z: "\<forall>k. wr_grant d k = 0" and lt: "off < n"
  shows "write_all d buf n off snk = None"
proof (cases "write_all d buf n off snk")
  case None then show ?thesis .
next
  case (Some y)
  from write_all_returns_only_if[OF this] obtain m where
    "n - off \<le> (\<Sum>i<m. wr_grant d (writes_done snk + i))" by blast
  with z lt show ?thesis by simp
qed

subsection \<open>One pump step\<close>

lemma pump_idle: "rx src = [] \<Longrightarrow> pump dsrc dsnk src snk buf = Some (src, snk, buf)"
  by (simp add: pump_def available_def)


lemma pump_busy:
  assumes "rx src \<noteq> []"
  shows "pump dsrc dsnk src snk buf =
     (case write_all dsnk (take (got dsrc src buf) (rx src) @ drop (got dsrc src buf) buf)
             (got dsrc src buf) 0 snk of
        None \<Rightarrow> None
      | Some snk' \<Rightarrow>
          Some (src\<lparr>rx := drop (got dsrc src buf) (rx src),
                      evs := evs src @ [Read (min (length (rx src)) (length buf)) (got dsrc src buf)]\<rparr>,
                flush False snk',
                take (got dsrc src buf) (rx src) @ drop (got dsrc src buf) buf))"
proof -
  have "(if length buf < length (rx src) then length buf else length (rx src))
          = min (length (rx src)) (length buf)" by simp
  then show ?thesis using assms
    by (simp add: pump_def available_def readBytes_def Let_def got_def cong: option.case_cong)
qed



lemma pump_result:
  assumes p: "pump dsrc dsnk src snk buf = Some (src', snk', buf')" and ne: "rx src \<noteq> []"
  shows "\<exists>ws. src' = src\<lparr>rx := drop (got dsrc src buf) (rx src),
                      evs := evs src @ [Read (min (length (rx src)) (length buf)) (got dsrc src buf)]\<rparr>
          \<and> buf' = take (got dsrc src buf) (rx src) @ drop (got dsrc src buf) buf
          \<and> snk' = snk\<lparr>tx := tx snk @ take (got dsrc src buf) (rx src), evs := evs snk @ ws @ [Flush False]\<rparr>
          \<and> (\<forall>e\<in>set ws. is_write e) \<and> (0 < got dsrc src buf \<longrightarrow> ws \<noteq> [])
          \<and> sum_list (map accepted ws) = got dsrc src buf"
proof -
  define g where "g = got dsrc src buf"
  define b where "b = take g (rx src) @ drop g buf"
  define r where "r = src\<lparr>rx := drop g (rx src),
                      evs := evs src @ [Read (min (length (rx src)) (length buf)) g]\<rparr>"
  have pb: "pump dsrc dsnk src snk buf =
     (case write_all dsnk b g 0 snk of None \<Rightarrow> None | Some k \<Rightarrow> Some (r, flush False k, b))"
    unfolding g_def b_def r_def by (rule pump_busy[OF ne])
  from p obtain s1 where w: "write_all dsnk b g 0 snk = Some s1"
    and t: "src' = r" "snk' = flush False s1" "buf' = b"
    unfolding pb by (cases "write_all dsnk b g 0 snk") simp_all
  from write_all_result[OF w] obtain ws where
    s1: "s1 = snk\<lparr>tx := tx snk @ take (g - 0) (drop 0 b), evs := evs snk @ ws\<rparr>"
    and ws: "\<forall>e\<in>set ws. is_write e" "0 < g \<longrightarrow> ws \<noteq> []"
            "sum_list (map accepted ws) = g - 0" by blast
  have "g \<le> length (rx src)" by (simp add: g_def got_def)
  then have "take g b = take g (rx src)" by (simp add: b_def)
  then have "s1 = snk\<lparr>tx := tx snk @ take g (rx src), evs := evs snk @ ws\<rparr>"
    unfolding s1 by simp
  then have sn: "snk' = snk\<lparr>tx := tx snk @ take g (rx src), evs := evs snk @ ws @ [Flush False]\<rparr>"
    unfolding t by (simp add: flush_def)
  have sm: "sum_list (map accepted ws) = g" using ws(3) by simp
  show ?thesis
    unfolding g_def[symmetric] b_def[symmetric] r_def[symmetric]
    by (intro exI[of _ ws] conjI t(1) t(3) sn ws(1) ws(2) sm)
qed

subsection \<open>Link initialisation\<close>

lemma wire_inited_wire_init: "wire_inited (wire_init s)"
  by (simp add: wire_init_def Let_def)

lemma wire_init_latched: "wire_inited s \<Longrightarrow> wire_init s = s"
  by (simp add: wire_init_def)

lemma wire_init_twice: "wire_init (wire_init s) = wire_init s"
  by (rule wire_init_latched) (rule wire_inited_wire_init)

lemma wire_init_funpow: "(wire_init ^^ Suc N) s = wire_init s"
  by (induction N) (simp_all add: wire_init_twice)

lemma wire_init_first:
  "\<not> wire_inited s \<Longrightarrow>
     Serial1 (wire_init s) =
       (Serial1 s)\<lparr>begins := Suc (begins (Serial1 s)), baud := WIRE_BAUD,
          framing := Some SERIAL_8N1, rx_pin := Some WIRE_RX_PIN, tx_pin := Some WIRE_TX_PIN,
          invert := False, begin_arg6 := Some 32768, rxbuf_size := 32768, txbuf_size := 32768,
          resizes := Suc (Suc (resizes (Serial1 s)))\<rparr>"
  by (simp add: wire_init_def Let_def begin_serial_def setRxBufferSize_def setTxBufferSize_def)

lemma wire_init_first_near:
  "\<not> wire_inited s \<Longrightarrow>
     Serial (wire_init s) =
       (Serial s)\<lparr>rxbuf_size := 32768, txbuf_size := 32768,
          resizes := Suc (Suc (resizes (Serial s)))\<rparr>"
  by (simp add: wire_init_def Let_def begin_serial_def setRxBufferSize_def setTxBufferSize_def)

lemma got_pos: "rx src \<noteq> [] \<Longrightarrow> buf \<noteq> [] \<Longrightarrow> 0 < got dsrc src buf"
  by (simp add: got_def)

lemma got_le: "got dsrc src buf \<le> length (rx src)" "got dsrc src buf \<le> length buf"
  by (simp_all add: got_def)

subsection \<open>What a pump step keeps\<close>

lemma pump_keeps:
  assumes p: "pump dsrc dsnk src snk buf = Some (src', snk', buf')"
  shows "tx snk' @ rx src' = tx snk @ rx src"
    and "rx snk' = rx snk" and "tx src' = tx src"
    and "length buf' = length buf"
    and "filter (\<lambda>e. \<not> is_read e) (evs src') = filter (\<lambda>e. \<not> is_read e) (evs src)"
    and "rx src = [] \<Longrightarrow> snk' = snk"
    and "rx src \<noteq> [] \<Longrightarrow> buf \<noteq> [] \<Longrightarrow> length (rx src') < length (rx src)"
    and "length (rx src') \<le> length (rx src)"
proof -
  have "tx snk' @ rx src' = tx snk @ rx src \<and> rx snk' = rx snk \<and> tx src' = tx src
        \<and> length buf' = length buf
        \<and> filter (\<lambda>e. \<not> is_read e) (evs src') = filter (\<lambda>e. \<not> is_read e) (evs src)
        \<and> (rx src = [] \<longrightarrow> snk' = snk)
        \<and> (rx src \<noteq> [] \<longrightarrow> buf \<noteq> [] \<longrightarrow> length (rx src') < length (rx src))
        \<and> length (rx src') \<le> length (rx src)"
  proof (cases "rx src = []")
    case True
    with p have "src' = src" "snk' = snk" "buf' = buf" by (simp_all add: pump_idle)
    with True show ?thesis by simp
  next
    case False
    let ?g = "got dsrc src buf"
    from pump_result[OF p False] obtain ws where
      a: "src' = src\<lparr>rx := drop ?g (rx src),
                      evs := evs src @ [Read (min (length (rx src)) (length buf)) ?g]\<rparr>"
      and c: "buf' = take ?g (rx src) @ drop ?g buf"
      and b: "snk' = snk\<lparr>tx := tx snk @ take ?g (rx src), evs := evs snk @ ws @ [Flush False]\<rparr>"
      by (elim exE conjE)
    have 1: "tx snk' @ rx src' = tx snk @ rx src" unfolding a b by simp
    have 2: "rx snk' = rx snk" "tx src' = tx src" unfolding a b by simp_all
    have 3: "length buf' = length buf"
      unfolding c using got_le[of dsrc src buf] by simp
    have 4: "filter (\<lambda>e. \<not> is_read e) (evs src') = filter (\<lambda>e. \<not> is_read e) (evs src)"
      unfolding a by simp
    have 5: "buf \<noteq> [] \<longrightarrow> length (rx src') < length (rx src)"
      unfolding a using got_pos[OF False, of buf dsrc] False by simp
    have 6: "length (rx src') \<le> length (rx src)" unfolding a by simp
    from False 1 2 3 4 5 6 show ?thesis by simp
  qed
  then show "tx snk' @ rx src' = tx snk @ rx src"
    and "rx snk' = rx snk" and "tx src' = tx src"
    and "length buf' = length buf"
    and "filter (\<lambda>e. \<not> is_read e) (evs src') = filter (\<lambda>e. \<not> is_read e) (evs src)"
    and "rx src = [] \<Longrightarrow> snk' = snk"
    and "rx src \<noteq> [] \<Longrightarrow> buf \<noteq> [] \<Longrightarrow> length (rx src') < length (rx src)"
    and "length (rx src') \<le> length (rx src)"
    by simp_all
qed

lemma pump_returns:
  assumes g: "\<forall>k. 1 \<le> wr_grant dsnk k"
  shows "\<exists>r. pump dsrc dsnk src snk buf = Some r"
proof (cases "rx src = []")
  case True
  then show ?thesis by (simp add: pump_idle)
next
  case False
  from write_all_progress[OF g] obtain s1 where
    "write_all dsnk (take (got dsrc src buf) (rx src) @ drop (got dsrc src buf) buf)
       (got dsrc src buf) 0 snk = Some s1" by blast
  then show ?thesis by (simp add: pump_busy[OF False])
qed

subsection \<open>Idle passes\<close>

lemma delay_fields [simp]:
  "Serial (delay ms s) = Serial s" "Serial1 (delay ms s) = Serial1 s"
  "receive_buf (delay ms s) = receive_buf s" "send_buf (delay ms s) = send_buf s"
  "buf_wire_to_usb (delay ms s) = buf_wire_to_usb s"
  "buf_usb_to_wire (delay ms s) = buf_usb_to_wire s"
  "wire_inited (delay ms s) = wire_inited s"
  by (simp_all add: delay_def)

lemma receive_pass_idle: "rx (Serial1 s) = [] \<Longrightarrow> receive_pass pl s = Some (delay 0 s)"
  by (simp add: receive_pass_def pump_idle)

lemma send_pass_idle: "rx (Serial s) = [] \<Longrightarrow> send_pass pl s = Some (delay 0 s)"
  by (simp add: send_pass_def pump_idle)

lemma wire_to_usb_idle: "rx (Serial1 s) = [] \<Longrightarrow> wire_to_usb pl s = Some s"
  by (simp add: wire_to_usb_def pump_idle)

lemma usb_to_wire_idle: "rx (Serial s) = [] \<Longrightarrow> usb_to_wire pl s = Some s"
  by (simp add: usb_to_wire_def pump_idle)

lemma bidi_pass_idle:
  "rx (Serial1 s) = [] \<Longrightarrow> rx (Serial s) = [] \<Longrightarrow> bidi_pass pl s = Some (delay 0 s)"
  by (simp add: bidi_pass_def wire_to_usb_idle usb_to_wire_idle)

lemma passes_idle:
  assumes "\<And>s. q s \<Longrightarrow> body s = Some (delay 0 s)" and "\<And>s. q s \<Longrightarrow> q (delay 0 s)"
  shows "q s \<Longrightarrow> passes body k s = Some (s\<lparr>delays := delays s @ replicate k 0\<rparr>)"
proof (induction k arbitrary: s)
  case 0
  then show ?case by simp
next
  case (Suc k)
  have "q (delay 0 s)" using Suc.prems assms(2) by blast
  from Suc.IH[OF this] show ?case
    using assms(1)[OF Suc.prems] by (simp add: delay_def replicate_app_Cons_same)
qed

subsection \<open>What a loop pass keeps\<close>

lemma wire_to_usb_keeps:
  assumes "wire_to_usb pl s = Some s'"
  shows "tx (Serial s') @ rx (Serial1 s') = tx (Serial s) @ rx (Serial1 s)"
    and "rx (Serial s') = rx (Serial s)" and "tx (Serial1 s') = tx (Serial1 s)"
    and "buf_usb_to_wire s' = buf_usb_to_wire s"
    and "length (buf_wire_to_usb s') = length (buf_wire_to_usb s)"
    and "filter (\<lambda>e. \<not> is_read e) (evs (Serial1 s')) = filter (\<lambda>e. \<not> is_read e) (evs (Serial1 s))"
    and "rx (Serial1 s) = [] \<Longrightarrow> Serial s' = Serial s"
    and "length (rx (Serial1 s')) \<le> length (rx (Serial1 s))"
    and "rx (Serial1 s) \<noteq> [] \<Longrightarrow> buf_wire_to_usb s \<noteq> [] \<Longrightarrow>
           length (rx (Serial1 s')) < length (rx (Serial1 s))"
proof -
  from assms obtain src' snk' b' where
    p: "pump (far pl) (near pl) (Serial1 s) (Serial s) (buf_wire_to_usb s) = Some (src', snk', b')"
    and s': "s' = s\<lparr>Serial := snk', Serial1 := src', buf_wire_to_usb := b'\<rparr>"
    by (auto simp: wire_to_usb_def split: option.splits)
  note k = pump_keeps[OF p]
  show "tx (Serial s') @ rx (Serial1 s') = tx (Serial s) @ rx (Serial1 s)"
    and "rx (Serial s') = rx (Serial s)" and "tx (Serial1 s') = tx (Serial1 s)"
    and "buf_usb_to_wire s' = buf_usb_to_wire s"
    and "length (buf_wire_to_usb s') = length (buf_wire_to_usb s)"
    and "filter (\<lambda>e. \<not> is_read e) (evs (Serial1 s')) = filter (\<lambda>e. \<not> is_read e) (evs (Serial1 s))"
    and "rx (Serial1 s) = [] \<Longrightarrow> Serial s' = Serial s"
    and "length (rx (Serial1 s')) \<le> length (rx (Serial1 s))"
    and "rx (Serial1 s) \<noteq> [] \<Longrightarrow> buf_wire_to_usb s \<noteq> [] \<Longrightarrow>
           length (rx (Serial1 s')) < length (rx (Serial1 s))"
    unfolding s' using k by simp_all
qed

lemma usb_to_wire_keeps:
  assumes "usb_to_wire pl s = Some s'"
  shows "tx (Serial1 s') @ rx (Serial s') = tx (Serial1 s) @ rx (Serial s)"
    and "rx (Serial1 s') = rx (Serial1 s)" and "tx (Serial s') = tx (Serial s)"
    and "buf_wire_to_usb s' = buf_wire_to_usb s"
    and "length (buf_usb_to_wire s') = length (buf_usb_to_wire s)"
    and "filter (\<lambda>e. \<not> is_read e) (evs (Serial s')) = filter (\<lambda>e. \<not> is_read e) (evs (Serial s))"
    and "rx (Serial s) = [] \<Longrightarrow> Serial1 s' = Serial1 s"
    and "length (rx (Serial s')) \<le> length (rx (Serial s))"
    and "rx (Serial s) \<noteq> [] \<Longrightarrow> buf_usb_to_wire s \<noteq> [] \<Longrightarrow>
           length (rx (Serial s')) < length (rx (Serial s))"
proof -
  from assms obtain src' snk' b' where
    p: "pump (near pl) (far pl) (Serial s) (Serial1 s) (buf_usb_to_wire s) = Some (src', snk', b')"
    and s': "s' = s\<lparr>Serial := src', Serial1 := snk', buf_usb_to_wire := b'\<rparr>"
    by (auto simp: usb_to_wire_def split: option.splits)
  note k = pump_keeps[OF p]
  show "tx (Serial1 s') @ rx (Serial s') = tx (Serial1 s) @ rx (Serial s)"
    and "rx (Serial1 s') = rx (Serial1 s)" and "tx (Serial s') = tx (Serial s)"
    and "buf_wire_to_usb s' = buf_wire_to_usb s"
    and "length (buf_usb_to_wire s') = length (buf_usb_to_wire s)"
    and "filter (\<lambda>e. \<not> is_read e) (evs (Serial s')) = filter (\<lambda>e. \<not> is_read e) (evs (Serial s))"
    and "rx (Serial s) = [] \<Longrightarrow> Serial1 s' = Serial1 s"
    and "length (rx (Serial s')) \<le> length (rx (Serial s))"
    and "rx (Serial s) \<noteq> [] \<Longrightarrow> buf_usb_to_wire s \<noteq> [] \<Longrightarrow>
           length (rx (Serial s')) < length (rx (Serial s))"
    unfolding s' using k by simp_all
qed

lemma receive_pass_keeps:
  assumes "receive_pass pl s = Some s'"
  shows "tx (Serial s') @ rx (Serial1 s') = tx (Serial s) @ rx (Serial1 s)"
    and "length (receive_buf s') = length (receive_buf s)"
    and "length (rx (Serial1 s')) \<le> length (rx (Serial1 s))"
    and "rx (Serial1 s) \<noteq> [] \<Longrightarrow> receive_buf s \<noteq> [] \<Longrightarrow>
           length (rx (Serial1 s')) < length (rx (Serial1 s))"
proof -
  from assms obtain src' snk' b' where
    p: "pump (far pl) (near pl) (Serial1 s) (Serial s) (receive_buf s) = Some (src', snk', b')"
    and s': "s' = delay 0 (s\<lparr>Serial := snk', Serial1 := src', receive_buf := b'\<rparr>)"
    by (auto simp: receive_pass_def split: option.splits)
  note k = pump_keeps[OF p]
  show "tx (Serial s') @ rx (Serial1 s') = tx (Serial s) @ rx (Serial1 s)"
    and "length (receive_buf s') = length (receive_buf s)"
    and "length (rx (Serial1 s')) \<le> length (rx (Serial1 s))"
    and "rx (Serial1 s) \<noteq> [] \<Longrightarrow> receive_buf s \<noteq> [] \<Longrightarrow>
           length (rx (Serial1 s')) < length (rx (Serial1 s))"
    unfolding s' using k by simp_all
qed

lemma send_pass_keeps:
  assumes "send_pass pl s = Some s'"
  shows "tx (Serial1 s') @ rx (Serial s') = tx (Serial1 s) @ rx (Serial s)"
    and "length (send_buf s') = length (send_buf s)"
    and "length (rx (Serial s')) \<le> length (rx (Serial s))"
    and "rx (Serial s) \<noteq> [] \<Longrightarrow> send_buf s \<noteq> [] \<Longrightarrow>
           length (rx (Serial s')) < length (rx (Serial s))"
proof -
  from assms obtain src' snk' b' where
    p: "pump (near pl) (far pl) (Serial s) (Serial1 s) (send_buf s) = Some (src', snk', b')"
    and s': "s' = delay 0 (s\<lparr>Serial := src', Serial1 := snk', send_buf := b'\<rparr>)"
    by (auto simp: send_pass_def split: option.splits)
  note k = pump_keeps[OF p]
  show "tx (Serial1 s') @ rx (Serial s') = tx (Serial1 s) @ rx (Serial s)"
    and "length (send_buf s') = length (send_buf s)"
    and "length (rx (Serial s')) \<le> length (rx (Serial s))"
    and "rx (Serial s) \<noteq> [] \<Longrightarrow> send_buf s \<noteq> [] \<Longrightarrow>
           length (rx (Serial s')) < length (rx (Serial s))"
    unfolding s' using k by simp_all
qed

lemma bidi_pass_split:
  "bidi_pass pl s = Some s' \<Longrightarrow>
     \<exists>s1 s2. wire_to_usb pl s = Some s1 \<and> usb_to_wire pl s1 = Some s2 \<and> s' = delay 0 s2"
  by (auto simp: bidi_pass_def split: option.splits)

lemma bidi_pass_keeps:
  assumes "bidi_pass pl s = Some s'"
  shows "tx (Serial s') @ rx (Serial1 s') = tx (Serial s) @ rx (Serial1 s)"
    and "tx (Serial1 s') @ rx (Serial s') = tx (Serial1 s) @ rx (Serial s)"
    and "length (buf_wire_to_usb s') = length (buf_wire_to_usb s)"
    and "length (buf_usb_to_wire s') = length (buf_usb_to_wire s)"
proof -
  from bidi_pass_split[OF assms] obtain s1 s2 where
    a: "wire_to_usb pl s = Some s1" and b: "usb_to_wire pl s1 = Some s2" and c: "s' = delay 0 s2"
    by (elim exE conjE)
  note ka = wire_to_usb_keeps[OF a] and kb = usb_to_wire_keeps[OF b]
  show "tx (Serial s') @ rx (Serial1 s') = tx (Serial s) @ rx (Serial1 s)"
    unfolding c using ka(1) kb(2,3) by simp
  show "tx (Serial1 s') @ rx (Serial s') = tx (Serial1 s) @ rx (Serial s)"
    unfolding c using kb(1) ka(2,3) by simp
  show "length (buf_wire_to_usb s') = length (buf_wire_to_usb s)"
    unfolding c using ka(5) kb(4) by simp
  show "length (buf_usb_to_wire s') = length (buf_usb_to_wire s)"
    unfolding c using ka(4) kb(5) by simp
qed

lemma bidi_pass_shrinks:
  assumes "bidi_pass pl s = Some s'"
  shows "length (rx (Serial1 s')) \<le> length (rx (Serial1 s))"
    and "length (rx (Serial s')) \<le> length (rx (Serial s))"
    and "rx (Serial1 s) \<noteq> [] \<Longrightarrow> buf_wire_to_usb s \<noteq> [] \<Longrightarrow>
           length (rx (Serial1 s')) < length (rx (Serial1 s))"
    and "rx (Serial s) \<noteq> [] \<Longrightarrow> buf_usb_to_wire s \<noteq> [] \<Longrightarrow>
           length (rx (Serial s')) < length (rx (Serial s))"
proof -
  from bidi_pass_split[OF assms] obtain s1 s2 where
    a: "wire_to_usb pl s = Some s1" and b: "usb_to_wire pl s1 = Some s2" and c: "s' = delay 0 s2"
    by (elim exE conjE)
  note ka = wire_to_usb_keeps[OF a] and kb = usb_to_wire_keeps[OF b]
  show "length (rx (Serial1 s')) \<le> length (rx (Serial1 s))"
    unfolding c using ka(8) kb(2) by simp
  show "length (rx (Serial s')) \<le> length (rx (Serial s))"
    unfolding c using kb(8) ka(2) by simp
  show "rx (Serial1 s) \<noteq> [] \<Longrightarrow> buf_wire_to_usb s \<noteq> [] \<Longrightarrow>
           length (rx (Serial1 s')) < length (rx (Serial1 s))"
    unfolding c using ka(9) kb(2) by simp
  show "rx (Serial s) \<noteq> [] \<Longrightarrow> buf_usb_to_wire s \<noteq> [] \<Longrightarrow>
           length (rx (Serial s')) < length (rx (Serial s))"
    unfolding c using kb(9) ka(2,4) by simp
qed

subsection \<open>Streams through the bridges\<close>

lemma arrive_far_fields [simp]:
  "Serial (arrive_far c s) = Serial s" "rx (Serial1 (arrive_far c s)) = rx (Serial1 s) @ c"
  "tx (Serial1 (arrive_far c s)) = tx (Serial1 s)" "evs (Serial1 (arrive_far c s)) = evs (Serial1 s)"
  "receive_buf (arrive_far c s) = receive_buf s" "send_buf (arrive_far c s) = send_buf s"
  "buf_wire_to_usb (arrive_far c s) = buf_wire_to_usb s"
  "buf_usb_to_wire (arrive_far c s) = buf_usb_to_wire s"
  by (simp_all add: arrive_far_def arrive_def)

lemma arrive_near_fields [simp]:
  "Serial1 (arrive_near c s) = Serial1 s" "rx (Serial (arrive_near c s)) = rx (Serial s) @ c"
  "tx (Serial (arrive_near c s)) = tx (Serial s)" "evs (Serial (arrive_near c s)) = evs (Serial s)"
  "receive_buf (arrive_near c s) = receive_buf s" "send_buf (arrive_near c s) = send_buf s"
  "buf_wire_to_usb (arrive_near c s) = buf_wire_to_usb s"
  "buf_usb_to_wire (arrive_near c s) = buf_usb_to_wire s"
  by (simp_all add: arrive_near_def arrive_def)

lemma arrive_far_Nil [simp]: "arrive_far [] s = s"
  by (simp add: arrive_far_def arrive_def)

lemma arrive_near_Nil [simp]: "arrive_near [] s = s"
  by (simp add: arrive_near_def arrive_def)

lemma receive_feed_keeps:
  "receive_feed pl cs s = Some s' \<Longrightarrow>
     tx (Serial s') @ rx (Serial1 s') = tx (Serial s) @ rx (Serial1 s) @ concat cs \<and>
     length (receive_buf s') = length (receive_buf s)"
proof (induction cs arbitrary: s)
  case Nil
  then show ?case by simp
next
  case (Cons c cs)
  from Cons.prems obtain s1 where
    a: "receive_pass pl (arrive_far c s) = Some s1" and b: "receive_feed pl cs s1 = Some s'"
    by (auto split: option.splits)
  from receive_pass_keeps(1,2)[OF a] Cons.IH[OF b] show ?case by simp
qed

lemma send_feed_keeps:
  "send_feed pl cs s = Some s' \<Longrightarrow>
     tx (Serial1 s') @ rx (Serial s') = tx (Serial1 s) @ rx (Serial s) @ concat cs \<and>
     length (send_buf s') = length (send_buf s)"
proof (induction cs arbitrary: s)
  case Nil
  then show ?case by simp
next
  case (Cons c cs)
  from Cons.prems obtain s1 where
    a: "send_pass pl (arrive_near c s) = Some s1" and b: "send_feed pl cs s1 = Some s'"
    by (auto split: option.splits)
  from send_pass_keeps(1,2)[OF a] Cons.IH[OF b] show ?case by simp
qed

lemma bidi_feed_keeps:
  "bidi_feed pl ps s = Some s' \<Longrightarrow>
     tx (Serial s') @ rx (Serial1 s') = tx (Serial s) @ rx (Serial1 s) @ concat (map fst ps) \<and>
     tx (Serial1 s') @ rx (Serial s') = tx (Serial1 s) @ rx (Serial s) @ concat (map snd ps) \<and>
     length (buf_wire_to_usb s') = length (buf_wire_to_usb s) \<and>
     length (buf_usb_to_wire s') = length (buf_usb_to_wire s)"
proof (induction ps arbitrary: s)
  case Nil
  then show ?case by simp
next
  case (Cons p ps)
  obtain cf cn where p: "p = (cf, cn)" by (cases p)
  from Cons.prems obtain s1 where
    a: "bidi_pass pl (arrive_near cn (arrive_far cf s)) = Some s1"
    and b: "bidi_feed pl ps s1 = Some s'"
    by (auto simp: p split: option.splits)
  from bidi_pass_keeps[OF a] Cons.IH[OF b] show ?case by (simp add: p)
qed

lemma receive_feed_append:
  "receive_feed pl (as @ bs) s =
     (case receive_feed pl as s of None \<Rightarrow> None | Some s1 \<Rightarrow> receive_feed pl bs s1)"
  by (induction as arbitrary: s) (simp_all split: option.splits)

lemma send_feed_append:
  "send_feed pl (as @ bs) s =
     (case send_feed pl as s of None \<Rightarrow> None | Some s1 \<Rightarrow> send_feed pl bs s1)"
  by (induction as arbitrary: s) (simp_all split: option.splits)

lemma bidi_feed_append:
  "bidi_feed pl (as @ bs) s =
     (case bidi_feed pl as s of None \<Rightarrow> None | Some s1 \<Rightarrow> bidi_feed pl bs s1)"
  by (induction as arbitrary: s) (auto split: option.splits)

lemma receive_pass_returns:
  assumes "\<forall>k. 1 \<le> wr_grant (near pl) k"
  shows "\<exists>s'. receive_pass pl s = Some s'"
proof -
  from pump_returns[OF assms] obtain r where
    "pump (far pl) (near pl) (Serial1 s) (Serial s) (receive_buf s) = Some r" by blast
  then show ?thesis by (cases r) (simp add: receive_pass_def)
qed

lemma send_pass_returns:
  assumes "\<forall>k. 1 \<le> wr_grant (far pl) k"
  shows "\<exists>s'. send_pass pl s = Some s'"
proof -
  from pump_returns[OF assms] obtain r where
    "pump (near pl) (far pl) (Serial s) (Serial1 s) (send_buf s) = Some r" by blast
  then show ?thesis by (cases r) (simp add: send_pass_def)
qed

lemma bidi_pass_returns:
  assumes n: "\<forall>k. 1 \<le> wr_grant (near pl) k" and f: "\<forall>k. 1 \<le> wr_grant (far pl) k"
  shows "\<exists>s'. bidi_pass pl s = Some s'"
proof -
  from pump_returns[OF n] obtain r where
    "pump (far pl) (near pl) (Serial1 s) (Serial s) (buf_wire_to_usb s) = Some r" by blast
  then obtain s1 where a: "wire_to_usb pl s = Some s1"
    by (cases r) (simp add: wire_to_usb_def)
  from pump_returns[OF f] obtain r' where
    "pump (near pl) (far pl) (Serial s1) (Serial1 s1) (buf_usb_to_wire s1) = Some r'" by blast
  then obtain s2 where b: "usb_to_wire pl s1 = Some s2"
    by (cases r') (simp add: usb_to_wire_def)
  from a b show ?thesis by (simp add: bidi_pass_def)
qed

lemma receive_feed_returns:
  assumes "\<forall>k. 1 \<le> wr_grant (near pl) k"
  shows "\<exists>s'. receive_feed pl cs s = Some s'"
proof (induction cs arbitrary: s)
  case Nil
  show ?case by simp
next
  case (Cons c cs)
  from receive_pass_returns[OF assms] obtain s1 where
    "receive_pass pl (arrive_far c s) = Some s1" by blast
  with Cons.IH[of s1] show ?case by simp
qed

lemma send_feed_returns:
  assumes "\<forall>k. 1 \<le> wr_grant (far pl) k"
  shows "\<exists>s'. send_feed pl cs s = Some s'"
proof (induction cs arbitrary: s)
  case Nil
  show ?case by simp
next
  case (Cons c cs)
  from send_pass_returns[OF assms] obtain s1 where
    "send_pass pl (arrive_near c s) = Some s1" by blast
  with Cons.IH[of s1] show ?case by simp
qed

lemma bidi_feed_returns:
  assumes n: "\<forall>k. 1 \<le> wr_grant (near pl) k" and f: "\<forall>k. 1 \<le> wr_grant (far pl) k"
  shows "\<exists>s'. bidi_feed pl ps s = Some s'"
proof (induction ps arbitrary: s)
  case Nil
  show ?case by simp
next
  case (Cons p ps)
  obtain cf cn where p: "p = (cf, cn)" by (cases p)
  from bidi_pass_returns[OF n f] obtain s1 where
    "bidi_pass pl (arrive_near cn (arrive_far cf s)) = Some s1" by blast
  with Cons.IH[of s1] show ?case by (simp add: p)
qed

lemma receive_idle_drains:
  assumes g: "\<forall>k. 1 \<le> wr_grant (near pl) k"
  shows "receive_buf s \<noteq> [] \<Longrightarrow> length (rx (Serial1 s)) \<le> k \<Longrightarrow>
     \<exists>s'. receive_feed pl (replicate k []) s = Some s' \<and> rx (Serial1 s') = []"
proof (induction k arbitrary: s)
  case 0
  then show ?case by simp
next
  case (Suc k)
  from receive_pass_returns[OF g] obtain s1 where a: "receive_pass pl s = Some s1" by blast
  note ka = receive_pass_keeps[OF a]
  have b: "receive_buf s1 \<noteq> []" using ka(2) Suc.prems(1) by auto
  have "length (rx (Serial1 s1)) \<le> k"
  proof (cases "rx (Serial1 s) = []")
    case True
    with ka(3) show ?thesis by simp
  next
    case False
    from ka(4)[OF False Suc.prems(1)] Suc.prems(2) show ?thesis by simp
  qed
  from Suc.IH[OF b this] a show ?case by simp
qed

lemma send_idle_drains:
  assumes g: "\<forall>k. 1 \<le> wr_grant (far pl) k"
  shows "send_buf s \<noteq> [] \<Longrightarrow> length (rx (Serial s)) \<le> k \<Longrightarrow>
     \<exists>s'. send_feed pl (replicate k []) s = Some s' \<and> rx (Serial s') = []"
proof (induction k arbitrary: s)
  case 0
  then show ?case by simp
next
  case (Suc k)
  from send_pass_returns[OF g] obtain s1 where a: "send_pass pl s = Some s1" by blast
  note ka = send_pass_keeps[OF a]
  have b: "send_buf s1 \<noteq> []" using ka(2) Suc.prems(1) by auto
  have "length (rx (Serial s1)) \<le> k"
  proof (cases "rx (Serial s) = []")
    case True
    with ka(3) show ?thesis by simp
  next
    case False
    from ka(4)[OF False Suc.prems(1)] Suc.prems(2) show ?thesis by simp
  qed
  from Suc.IH[OF b this] a show ?case by simp
qed

lemma bidi_idle_drains:
  assumes n: "\<forall>k. 1 \<le> wr_grant (near pl) k" and f: "\<forall>k. 1 \<le> wr_grant (far pl) k"
  shows "buf_wire_to_usb s \<noteq> [] \<Longrightarrow> buf_usb_to_wire s \<noteq> [] \<Longrightarrow>
     length (rx (Serial1 s)) \<le> k \<Longrightarrow> length (rx (Serial s)) \<le> k \<Longrightarrow>
     \<exists>s'. bidi_feed pl (replicate k ([], [])) s = Some s' \<and>
          rx (Serial1 s') = [] \<and> rx (Serial s') = []"
proof (induction k arbitrary: s)
  case 0
  then show ?case by simp
next
  case (Suc k)
  from bidi_pass_returns[OF n f] obtain s1 where a: "bidi_pass pl s = Some s1" by blast
  note ka = bidi_pass_keeps[OF a] and sh = bidi_pass_shrinks[OF a]
  have b1: "buf_wire_to_usb s1 \<noteq> []" using ka(3) Suc.prems(1) by auto
  have b2: "buf_usb_to_wire s1 \<noteq> []" using ka(4) Suc.prems(2) by auto
  have l1: "length (rx (Serial1 s1)) \<le> k"
  proof (cases "rx (Serial1 s) = []")
    case True
    with sh(1) show ?thesis by simp
  next
    case False
    from sh(3)[OF False Suc.prems(1)] Suc.prems(3) show ?thesis by simp
  qed
  have l2: "length (rx (Serial s1)) \<le> k"
  proof (cases "rx (Serial s) = []")
    case True
    with sh(2) show ?thesis by simp
  next
    case False
    from sh(4)[OF False Suc.prems(2)] Suc.prems(4) show ?thesis by simp
  qed
  from Suc.IH[OF b1 b2 l1 l2] a show ?case by simp
qed

lemma receive_feed_pending:
  "receive_feed pl cs s = Some s' \<Longrightarrow>
     length (rx (Serial1 s')) \<le> length (rx (Serial1 s) @ concat cs)"
proof (induction cs arbitrary: s)
  case Nil
  then show ?case by simp
next
  case (Cons c cs)
  from Cons.prems obtain s1 where
    a: "receive_pass pl (arrive_far c s) = Some s1" and b: "receive_feed pl cs s1 = Some s'"
    by (auto split: option.splits)
  from receive_pass_keeps(3)[OF a] Cons.IH[OF b] show ?case by simp
qed

lemma send_feed_pending:
  "send_feed pl cs s = Some s' \<Longrightarrow>
     length (rx (Serial s')) \<le> length (rx (Serial s) @ concat cs)"
proof (induction cs arbitrary: s)
  case Nil
  then show ?case by simp
next
  case (Cons c cs)
  from Cons.prems obtain s1 where
    a: "send_pass pl (arrive_near c s) = Some s1" and b: "send_feed pl cs s1 = Some s'"
    by (auto split: option.splits)
  from send_pass_keeps(3)[OF a] Cons.IH[OF b] show ?case by simp
qed

lemma bidi_feed_pending:
  "bidi_feed pl ps s = Some s' \<Longrightarrow>
     length (rx (Serial1 s')) \<le> length (rx (Serial1 s) @ concat (map fst ps)) \<and>
     length (rx (Serial s')) \<le> length (rx (Serial s) @ concat (map snd ps))"
proof (induction ps arbitrary: s)
  case Nil
  then show ?case by simp
next
  case (Cons p ps)
  obtain cf cn where p: "p = (cf, cn)" by (cases p)
  from Cons.prems obtain s1 where
    a: "bidi_pass pl (arrive_near cn (arrive_far cf s)) = Some s1"
    and b: "bidi_feed pl ps s1 = Some s'"
    by (auto simp: p split: option.splits)
  from bidi_pass_shrinks(1,2)[OF a] Cons.IH[OF b] show ?case by (simp add: p)
qed

lemma concat_replicate_Nil [simp]: "concat (replicate k []) = []"
  by (induction k) simp_all

lemma receive_delivers:
  assumes g: "\<forall>k. 1 \<le> wr_grant (near pl) k" and b: "receive_buf s \<noteq> []"
  shows "\<exists>t. receive_feed pl (cs @ replicate (length (rx (Serial1 s) @ concat cs)) []) s = Some t \<and>
           rx (Serial1 t) = [] \<and> tx (Serial t) = tx (Serial s) @ rx (Serial1 s) @ concat cs"
proof -
  from receive_feed_returns[OF g] obtain s1 where a: "receive_feed pl cs s = Some s1" by blast
  note k1 = receive_feed_keeps[OF a]
  have l: "length (rx (Serial1 s1)) \<le> length (rx (Serial1 s) @ concat cs)"
    by (rule receive_feed_pending[OF a])
  have b1: "receive_buf s1 \<noteq> []" using k1 b by auto
  from receive_idle_drains[OF g b1 l] obtain t where
    c: "receive_feed pl (replicate (length (rx (Serial1 s) @ concat cs)) []) s1 = Some t"
    and d: "rx (Serial1 t) = []" by blast
  from receive_feed_keeps[OF c] d k1
  have "tx (Serial t) = tx (Serial s) @ rx (Serial1 s) @ concat cs" by simp
  with a c d show ?thesis by (simp add: receive_feed_append)
qed

lemma send_delivers:
  assumes g: "\<forall>k. 1 \<le> wr_grant (far pl) k" and b: "send_buf s \<noteq> []"
  shows "\<exists>t. send_feed pl (cs @ replicate (length (rx (Serial s) @ concat cs)) []) s = Some t \<and>
           rx (Serial t) = [] \<and> tx (Serial1 t) = tx (Serial1 s) @ rx (Serial s) @ concat cs"
proof -
  from send_feed_returns[OF g] obtain s1 where a: "send_feed pl cs s = Some s1" by blast
  note k1 = send_feed_keeps[OF a]
  have l: "length (rx (Serial s1)) \<le> length (rx (Serial s) @ concat cs)"
    by (rule send_feed_pending[OF a])
  have b1: "send_buf s1 \<noteq> []" using k1 b by auto
  from send_idle_drains[OF g b1 l] obtain t where
    c: "send_feed pl (replicate (length (rx (Serial s) @ concat cs)) []) s1 = Some t"
    and d: "rx (Serial t) = []" by blast
  from send_feed_keeps[OF c] d k1
  have "tx (Serial1 t) = tx (Serial1 s) @ rx (Serial s) @ concat cs" by simp
  with a c d show ?thesis by (simp add: send_feed_append)
qed

lemma concat_map_replicate_Nil [simp]:
  "concat (map fst (replicate k ([], []))) = []" "concat (map snd (replicate k ([], []))) = []"
  by (induction k) simp_all

lemma bidi_delivers:
  assumes n: "\<forall>k. 1 \<le> wr_grant (near pl) k" and f: "\<forall>k. 1 \<le> wr_grant (far pl) k"
    and b: "buf_wire_to_usb s \<noteq> []" "buf_usb_to_wire s \<noteq> []"
  shows "\<exists>t. bidi_feed pl (ps @ replicate (length (rx (Serial1 s) @ concat (map fst ps)) +
                                          length (rx (Serial s) @ concat (map snd ps))) ([], [])) s = Some t \<and>
           rx (Serial1 t) = [] \<and> rx (Serial t) = [] \<and>
           tx (Serial t) = tx (Serial s) @ rx (Serial1 s) @ concat (map fst ps) \<and>
           tx (Serial1 t) = tx (Serial1 s) @ rx (Serial s) @ concat (map snd ps)"
proof -
  let ?k = "length (rx (Serial1 s) @ concat (map fst ps)) + length (rx (Serial s) @ concat (map snd ps))"
  from bidi_feed_returns[OF n f] obtain s1 where a: "bidi_feed pl ps s = Some s1" by blast
  note k1 = bidi_feed_keeps[OF a]
  have l1: "length (rx (Serial1 s1)) \<le> ?k" and l2: "length (rx (Serial s1)) \<le> ?k"
    using bidi_feed_pending[OF a] by simp_all
  have b1: "buf_wire_to_usb s1 \<noteq> []" "buf_usb_to_wire s1 \<noteq> []" using k1 b by auto
  from bidi_idle_drains[OF n f b1 l1 l2] obtain t where
    c: "bidi_feed pl (replicate ?k ([], [])) s1 = Some t"
    and d: "rx (Serial1 t) = []" "rx (Serial t) = []" by blast
  from bidi_feed_keeps[OF c] d k1
  have "tx (Serial t) = tx (Serial s) @ rx (Serial1 s) @ concat (map fst ps)"
       "tx (Serial1 t) = tx (Serial1 s) @ rx (Serial s) @ concat (map snd ps)" by simp_all
  with a c d show ?thesis by (simp add: bidi_feed_append)
qed

subsection \<open>A quiet direction\<close>

lemma bidi_far_quiet:
  "bidi_feed pl ps s = Some s' \<Longrightarrow> rx (Serial1 s) = [] \<Longrightarrow> (\<forall>p\<in>set ps. fst p = []) \<Longrightarrow>
     rx (Serial1 s') = [] \<and> tx (Serial s') = tx (Serial s) \<and>
     filter (\<lambda>e. \<not> is_read e) (evs (Serial s')) = filter (\<lambda>e. \<not> is_read e) (evs (Serial s))"
proof (induction ps arbitrary: s)
  case Nil
  then show ?case by simp
next
  case (Cons p ps)
  obtain cn where p: "p = ([], cn)" using Cons.prems(3) by (cases p) simp
  let ?t = "arrive_near cn s"
  from Cons.prems(1) obtain s1 where
    a: "bidi_pass pl ?t = Some s1" and b: "bidi_feed pl ps s1 = Some s'"
    by (auto simp: p split: option.splits)
  have q: "rx (Serial1 ?t) = []" using Cons.prems(2) by simp
  from a obtain s2 where u: "usb_to_wire pl ?t = Some s2" and d: "s1 = delay 0 s2"
    by (auto simp: bidi_pass_def wire_to_usb_idle[OF q] split: option.splits)
  note k = usb_to_wire_keeps[OF u]
  have 1: "rx (Serial1 s1) = []" unfolding d using k(2) q by simp
  have 2: "tx (Serial s1) = tx (Serial s)" unfolding d using k(3) by simp
  have 3: "filter (\<lambda>e. \<not> is_read e) (evs (Serial s1)) = filter (\<lambda>e. \<not> is_read e) (evs (Serial s))"
    unfolding d using k(6) by simp
  from Cons.IH[OF b 1] Cons.prems(3) 2 3 show ?case by simp
qed

lemma bidi_near_quiet:
  "bidi_feed pl ps s = Some s' \<Longrightarrow> rx (Serial s) = [] \<Longrightarrow> (\<forall>p\<in>set ps. snd p = []) \<Longrightarrow>
     rx (Serial s') = [] \<and> tx (Serial1 s') = tx (Serial1 s) \<and>
     filter (\<lambda>e. \<not> is_read e) (evs (Serial1 s')) = filter (\<lambda>e. \<not> is_read e) (evs (Serial1 s))"
proof (induction ps arbitrary: s)
  case Nil
  then show ?case by simp
next
  case (Cons p ps)
  obtain cf where p: "p = (cf, [])" using Cons.prems(3) by (cases p) simp
  let ?t = "arrive_far cf s"
  from Cons.prems(1) obtain s1 where
    a: "bidi_pass pl ?t = Some s1" and b: "bidi_feed pl ps s1 = Some s'"
    by (auto simp: p split: option.splits)
  from bidi_pass_split[OF a] obtain m s2 where w: "wire_to_usb pl ?t = Some m"
    and u: "usb_to_wire pl m = Some s2" and d: "s1 = delay 0 s2"
    by (elim exE conjE)
  note k = wire_to_usb_keeps[OF w]
  have q: "rx (Serial m) = []" using k(2) Cons.prems(2) by simp
  from u have e: "s2 = m" by (simp add: usb_to_wire_idle[OF q])
  have 1: "rx (Serial s1) = []" unfolding d e using q by simp
  have 2: "tx (Serial1 s1) = tx (Serial1 s)" unfolding d e using k(3) by simp
  have 3: "filter (\<lambda>e. \<not> is_read e) (evs (Serial1 s1)) = filter (\<lambda>e. \<not> is_read e) (evs (Serial1 s))"
    unfolding d e using k(6) by simp
  from Cons.IH[OF b 1] Cons.prems(3) 2 3 show ?case by simp
qed

lemma wire_to_usb_other_buf:
  "wire_to_usb pl (s\<lparr>buf_usb_to_wire := b\<rparr>) =
     map_option (\<lambda>t. t\<lparr>buf_usb_to_wire := b\<rparr>) (wire_to_usb pl s)"
  by (simp add: wire_to_usb_def split: option.splits)

lemma usb_to_wire_other_buf:
  "usb_to_wire pl (s\<lparr>buf_wire_to_usb := b\<rparr>) =
     map_option (\<lambda>t. t\<lparr>buf_wire_to_usb := b\<rparr>) (usb_to_wire pl s)"
  by (simp add: usb_to_wire_def split: option.splits)

subsection \<open>Evaluation\<close>

lemmas run_simps =
  pump_def available_def readBytes_def Let_def write_all_step write_all_done
  fst_write_serial snd_write_serial writes_done_def reads_done_def flush_def
  steady_def closed_port_def arrive_def PING_def

lemmas feed_simps =
  receive_pass_def send_pass_def bidi_pass_def wire_to_usb_def usb_to_wire_def
  delay_def arrive_far_def arrive_near_def fresh_def bench_def run_simps

lemmas init_simps =
  wire_init_def begin_serial_def setRxBufferSize_def setTxBufferSize_def
  cmd_receive_enter_def cmd_send_enter_def kon_printf_def flush_default_def
  cmd_receive_passes_def cmd_send_passes_def run_bidi_bridge_passes_def
  run_receive_bridge_passes_def run_send_bridge_passes_def

section \<open>Claims\<close>

text \<open>
  C1. The claim is that every write call of the drain loop asks the sink for at most
  \<open>min remaining capacity 256\<close> bytes. The loops call \<^verbatim>\<open>write(buf + off, n - off)\<close> and so
  ask for the whole remainder; \<open>write_chunk\<close>, which caps the request, is called by
  none of them. With \<open>PING\<close> read and a sink that reports room for two bytes, the first
  call asks for four bytes where the bound is two, while \<open>write_chunk\<close> at the same
  input asks for two; with 300 bytes read and room for 64, the call asks for 300.
\<close>

theorem C1_write_requests_whole_remainder:
  "availableForWrite (steady 3 2 2) closed_port = 2 \<and>
   pump (steady 4 0 0) (steady 3 2 2) (arrive PING closed_port) closed_port (replicate 8 0) =
     Some (closed_port\<lparr>evs := [Read 4 4]\<rparr>,
           closed_port\<lparr>tx := PING, evs := [Write 4 2, Write 2 2, Flush False]\<rparr>,
           PING @ replicate 4 0) \<and>
   min (min 4 (availableForWrite (steady 3 2 2) closed_port)) 256 < (4::nat) \<and>
   snd (write_chunk (steady 3 2 2) PING 4 closed_port) =
     closed_port\<lparr>tx := take 2 PING, evs := [Write 2 2]\<rparr> \<and>
   availableForWrite (steady 3 300 64) closed_port = 64 \<and>
   map_option (\<lambda>(src, snk, buf). evs snk)
     (pump (steady 300 0 0) (steady 3 300 64) (arrive (replicate 300 7) closed_port) closed_port
        (replicate BRIDGE_BUF_SZ 0)) = Some [Write 300 300, Flush False]"
  by (simp add: run_simps availableForWrite_def write_chunk_def BRIDGE_BUF_SZ_def)

text \<open>
  C2. The claim is that \<^verbatim>\<open>receive\<close> enters the receive-only bridge and \<^verbatim>\<open>send\<close> the
  send-only bridge. Both handlers call \<open>run_bidi_bridge\<close>: after one loop pass of
  \<^verbatim>\<open>receive\<close> a byte waiting at the Near side has been written to the Far side, which
  the receive-only bridge leaves alone, and after one pass of \<^verbatim>\<open>send\<close> a byte waiting
  at the Far side has been written to the Near side.
\<close>

theorem C2_commands_enter_bidirectional_bridge:
  "map_option (\<lambda>t. tx (Serial1 t)) (cmd_receive_passes bench 1 (arrive_near [0x41] (fresh 4))) = Some [0x41] \<and>
   map_option (\<lambda>t. tx (Serial1 t)) (run_receive_bridge_passes bench 1 (arrive_near [0x41] (fresh 4))) = Some [] \<and>
   map_option (\<lambda>t. tx (Serial t)) (cmd_send_passes bench 1 (arrive_far [0x42] (fresh 4))) = Some [0x42] \<and>
   map_option (\<lambda>t. tx (Serial t)) (run_send_bridge_passes bench 1 (arrive_far [0x42] (fresh 4))) = Some []"
  by (simp add: init_simps feed_simps)

text \<open>
  C3. For every byte sequence delivered to the source of a direction, however it is cut
  into deliveries and whatever the reads return and the writes accept, the bytes
  accepted by the sink followed by the bytes still waiting at the source are the bytes
  that were there at the start followed by the bytes delivered, in order; this holds in
  the receive bridge, in the send bridge and for both directions of the bidirectional
  bridge. When every write of the sink accepts at least one byte and the staging buffer
  is not empty, as many further passes as there are bytes empty the source, and the
  sink has then accepted exactly the delivered sequence.
\<close>

theorem C3_stream_order_preserved:
  "(receive_feed pl cs s = Some s' \<longrightarrow>
      tx (Serial s') @ rx (Serial1 s') = tx (Serial s) @ rx (Serial1 s) @ concat cs) \<and>
   (send_feed pl cs s = Some s' \<longrightarrow>
      tx (Serial1 s') @ rx (Serial s') = tx (Serial1 s) @ rx (Serial s) @ concat cs) \<and>
   (bidi_feed pl ps s = Some s' \<longrightarrow>
      tx (Serial s') @ rx (Serial1 s') = tx (Serial s) @ rx (Serial1 s) @ concat (map fst ps) \<and>
      tx (Serial1 s') @ rx (Serial s') = tx (Serial1 s) @ rx (Serial s) @ concat (map snd ps)) \<and>
   ((\<forall>k. 1 \<le> wr_grant (near pl) k) \<and> receive_buf s \<noteq> [] \<longrightarrow>
      (\<exists>t. receive_feed pl (cs @ replicate (length (rx (Serial1 s) @ concat cs)) []) s = Some t \<and>
           rx (Serial1 t) = [] \<and> tx (Serial t) = tx (Serial s) @ rx (Serial1 s) @ concat cs)) \<and>
   ((\<forall>k. 1 \<le> wr_grant (far pl) k) \<and> send_buf s \<noteq> [] \<longrightarrow>
      (\<exists>t. send_feed pl (cs @ replicate (length (rx (Serial s) @ concat cs)) []) s = Some t \<and>
           rx (Serial t) = [] \<and> tx (Serial1 t) = tx (Serial1 s) @ rx (Serial s) @ concat cs)) \<and>
   ((\<forall>k. 1 \<le> wr_grant (near pl) k) \<and> (\<forall>k. 1 \<le> wr_grant (far pl) k) \<and>
    buf_wire_to_usb s \<noteq> [] \<and> buf_usb_to_wire s \<noteq> [] \<longrightarrow>
      (\<exists>t. bidi_feed pl (ps @ replicate (length (rx (Serial1 s) @ concat (map fst ps)) +
                                          length (rx (Serial s) @ concat (map snd ps))) ([], [])) s = Some t \<and>
           rx (Serial1 t) = [] \<and> rx (Serial t) = [] \<and>
           tx (Serial t) = tx (Serial s) @ rx (Serial1 s) @ concat (map fst ps) \<and>
           tx (Serial1 t) = tx (Serial1 s) @ rx (Serial s) @ concat (map snd ps)))"
proof (intro conjI impI)
  assume "receive_feed pl cs s = Some s'"
  from receive_feed_keeps[OF this]
  show "tx (Serial s') @ rx (Serial1 s') = tx (Serial s) @ rx (Serial1 s) @ concat cs" by simp
next
  assume "send_feed pl cs s = Some s'"
  from send_feed_keeps[OF this]
  show "tx (Serial1 s') @ rx (Serial s') = tx (Serial1 s) @ rx (Serial s) @ concat cs" by simp
next
  assume "bidi_feed pl ps s = Some s'"
  from bidi_feed_keeps[OF this]
  show "tx (Serial s') @ rx (Serial1 s') = tx (Serial s) @ rx (Serial1 s) @ concat (map fst ps)" by simp
next
  assume "bidi_feed pl ps s = Some s'"
  from bidi_feed_keeps[OF this]
  show "tx (Serial1 s') @ rx (Serial s') = tx (Serial1 s) @ rx (Serial s) @ concat (map snd ps)" by simp
next
  assume "(\<forall>k. 1 \<le> wr_grant (near pl) k) \<and> receive_buf s \<noteq> []"
  then show "\<exists>t. receive_feed pl (cs @ replicate (length (rx (Serial1 s) @ concat cs)) []) s = Some t \<and>
           rx (Serial1 t) = [] \<and> tx (Serial t) = tx (Serial s) @ rx (Serial1 s) @ concat cs"
    using receive_delivers by blast
next
  assume "(\<forall>k. 1 \<le> wr_grant (far pl) k) \<and> send_buf s \<noteq> []"
  then show "\<exists>t. send_feed pl (cs @ replicate (length (rx (Serial s) @ concat cs)) []) s = Some t \<and>
           rx (Serial t) = [] \<and> tx (Serial1 t) = tx (Serial1 s) @ rx (Serial s) @ concat cs"
    using send_delivers by blast
next
  assume "(\<forall>k. 1 \<le> wr_grant (near pl) k) \<and> (\<forall>k. 1 \<le> wr_grant (far pl) k) \<and>
    buf_wire_to_usb s \<noteq> [] \<and> buf_usb_to_wire s \<noteq> []"
  then show "\<exists>t. bidi_feed pl (ps @ replicate (length (rx (Serial1 s) @ concat (map fst ps)) +
                                          length (rx (Serial s) @ concat (map snd ps))) ([], [])) s = Some t \<and>
           rx (Serial1 t) = [] \<and> rx (Serial t) = [] \<and>
           tx (Serial t) = tx (Serial s) @ rx (Serial1 s) @ concat (map fst ps) \<and>
           tx (Serial1 t) = tx (Serial1 s) @ rx (Serial s) @ concat (map snd ps)"
    using bidi_delivers by blast
qed

theorem C3_stream_order_preserved_witness:
  "(\<exists>s'. receive_feed bench traffic_far (fresh 4) = Some s' \<and>
         tx (Serial s') @ rx (Serial1 s') =
           tx (Serial (fresh 4)) @ rx (Serial1 (fresh 4)) @ concat traffic_far \<and>
         tx (Serial s') = PING @ [0x21]) \<and>
   (\<exists>s'. send_feed bench traffic_far (fresh 4) = Some s' \<and>
         tx (Serial1 s') @ rx (Serial s') =
           tx (Serial1 (fresh 4)) @ rx (Serial (fresh 4)) @ concat traffic_far \<and>
         tx (Serial1 s') = PING @ [0x21]) \<and>
   (\<exists>s'. bidi_feed bench traffic_both (fresh 4) = Some s' \<and>
         tx (Serial s') @ rx (Serial1 s') =
           tx (Serial (fresh 4)) @ rx (Serial1 (fresh 4)) @ concat (map fst traffic_both) \<and>
         tx (Serial1 s') @ rx (Serial s') =
           tx (Serial1 (fresh 4)) @ rx (Serial (fresh 4)) @ concat (map snd traffic_both) \<and>
         tx (Serial s') = PING @ [0x21] \<and> tx (Serial1 s') = [0x41, 0x42, 0x43]) \<and>
   (\<forall>k. 1 \<le> wr_grant (near bench) k) \<and> (\<forall>k. 1 \<le> wr_grant (far bench) k) \<and>
   receive_buf (fresh 4) \<noteq> [] \<and> send_buf (fresh 4) \<noteq> [] \<and>
   buf_wire_to_usb (fresh 4) \<noteq> [] \<and> buf_usb_to_wire (fresh 4) \<noteq> [] \<and>
   (\<exists>t. receive_feed bench
          (traffic_far @ replicate (length (rx (Serial1 (fresh 4)) @ concat traffic_far)) [])
          (fresh 4) = Some t \<and>
        rx (Serial1 t) = [] \<and>
        tx (Serial t) = tx (Serial (fresh 4)) @ rx (Serial1 (fresh 4)) @ concat traffic_far) \<and>
   (\<exists>t. send_feed bench
          (traffic_far @ replicate (length (rx (Serial (fresh 4)) @ concat traffic_far)) [])
          (fresh 4) = Some t \<and>
        rx (Serial t) = [] \<and>
        tx (Serial1 t) = tx (Serial1 (fresh 4)) @ rx (Serial (fresh 4)) @ concat traffic_far) \<and>
   (\<exists>t. bidi_feed bench
          (traffic_both @
           replicate (length (rx (Serial1 (fresh 4)) @ concat (map fst traffic_both)) +
                      length (rx (Serial (fresh 4)) @ concat (map snd traffic_both))) ([], []))
          (fresh 4) = Some t \<and>
        rx (Serial1 t) = [] \<and> rx (Serial t) = [] \<and>
        tx (Serial t) = tx (Serial (fresh 4)) @ rx (Serial1 (fresh 4)) @ concat (map fst traffic_both) \<and>
        tx (Serial1 t) = tx (Serial1 (fresh 4)) @ rx (Serial (fresh 4)) @ concat (map snd traffic_both))"
proof -
  have "\<exists>s'. receive_feed bench traffic_far (fresh 4) = Some s' \<and> tx (Serial s') = PING @ [0x21]"
    by (simp add: feed_simps traffic_far_def)
  then obtain s1 where a1: "receive_feed bench traffic_far (fresh 4) = Some s1"
    and v1: "tx (Serial s1) = PING @ [0x21]" by blast
  note c1 = C3_stream_order_preserved[THEN conjunct1, THEN mp, OF a1]
  have "\<exists>s'. send_feed bench traffic_far (fresh 4) = Some s' \<and> tx (Serial1 s') = PING @ [0x21]"
    by (simp add: feed_simps traffic_far_def)
  then obtain s2 where a2: "send_feed bench traffic_far (fresh 4) = Some s2"
    and v2: "tx (Serial1 s2) = PING @ [0x21]" by blast
  note c2 = C3_stream_order_preserved[THEN conjunct2, THEN conjunct1, THEN mp, OF a2]
  have "\<exists>s'. bidi_feed bench traffic_both (fresh 4) = Some s' \<and> tx (Serial s') = PING @ [0x21]
          \<and> tx (Serial1 s') = [0x41, 0x42, 0x43]"
    by (simp add: feed_simps traffic_both_def)
  then obtain s3 where a3: "bidi_feed bench traffic_both (fresh 4) = Some s3"
    and v3: "tx (Serial s3) = PING @ [0x21]" "tx (Serial1 s3) = [0x41, 0x42, 0x43]" by blast
  note c3 = C3_stream_order_preserved[THEN conjunct2, THEN conjunct2, THEN conjunct1, THEN mp, OF a3]
  have g: "\<forall>k. 1 \<le> wr_grant (near bench) k" "\<forall>k. 1 \<le> wr_grant (far bench) k"
    by (simp_all add: bench_def steady_def)
  have b: "receive_buf (fresh 4) \<noteq> []" "send_buf (fresh 4) \<noteq> []"
    "buf_wire_to_usb (fresh 4) \<noteq> []" "buf_usb_to_wire (fresh 4) \<noteq> []"
    by (simp_all add: fresh_def)
  note c4 = C3_stream_order_preserved[THEN conjunct2, THEN conjunct2, THEN conjunct2,
      THEN conjunct1, THEN mp, OF conjI[OF g(1) b(1)], of traffic_far]
  note c5 = C3_stream_order_preserved[THEN conjunct2, THEN conjunct2, THEN conjunct2,
      THEN conjunct2, THEN conjunct1, THEN mp, OF conjI[OF g(2) b(2)], of traffic_far]
  note c6 = C3_stream_order_preserved[THEN conjunct2, THEN conjunct2, THEN conjunct2,
      THEN conjunct2, THEN conjunct2, THEN mp,
      OF conjI[OF g(1) conjI[OF g(2) conjI[OF b(3) b(4)]]], of traffic_both]
  show ?thesis
    by (intro conjI exI[of _ s1] exI[of _ s2] exI[of _ s3] a1 a2 a3 v1 v2 v3 c1 c2
          c3[THEN conjunct1] c3[THEN conjunct2] g b c4 c5 c6)
qed

text \<open>
  C4. Once a bridge run loop has been entered it never returns: each of the three
  bridges, and with it each command handler, has no result, so the handler's
  \<^verbatim>\<open>return 0\<close> is never reached.
\<close>

theorem C4_bridge_never_returns:
  "run_receive_bridge pl s = None \<and> run_send_bridge pl s = None \<and>
   run_bidi_bridge pl s = None \<and> cmd_receive pl s = None \<and> cmd_send pl s = None"
  by (simp add: run_receive_bridge_def run_send_bridge_def run_bidi_bridge_def
        cmd_receive_def cmd_send_def forever_None)

text \<open>
  C5. Link initialisation is idempotent: calling \<open>wire_init\<close> N times, N at least 1,
  gives the state that one call gives; from a state whose latch is clear the calls set
  the latch, begin the Far endpoint once and resize each buffer once; and entering a
  bridge after a call gives what entering it directly gives.
\<close>

theorem C5_wire_init_idempotent:
  "(1 \<le> N \<longrightarrow> (wire_init ^^ N) s = wire_init s) \<and>
   (1 \<le> N \<and> \<not> wire_inited s \<longrightarrow>
      wire_inited ((wire_init ^^ N) s) \<and>
      begins (Serial1 ((wire_init ^^ N) s)) = Suc (begins (Serial1 s)) \<and>
      resizes (Serial1 ((wire_init ^^ N) s)) = resizes (Serial1 s) + 2 \<and>
      resizes (Serial ((wire_init ^^ N) s)) = resizes (Serial s) + 2) \<and>
   run_receive_bridge_passes pl k (wire_init s) = run_receive_bridge_passes pl k s \<and>
   run_send_bridge_passes pl k (wire_init s) = run_send_bridge_passes pl k s \<and>
   run_bidi_bridge_passes pl k (wire_init s) = run_bidi_bridge_passes pl k s"
proof -
  have n: "1 \<le> N \<Longrightarrow> (wire_init ^^ N) s = wire_init s"
    using wire_init_funpow[of "N - 1" s] by simp
  show ?thesis
    by (auto simp: n wire_inited_wire_init wire_init_first wire_init_first_near wire_init_twice
          run_receive_bridge_passes_def run_send_bridge_passes_def run_bidi_bridge_passes_def)
qed

theorem C5_wire_init_idempotent_witness:
  "1 \<le> (3::nat) \<and> \<not> wire_inited boot \<and>
   (wire_init ^^ 3) boot = wire_init boot \<and>
   wire_inited ((wire_init ^^ 3) boot) \<and>
   begins (Serial1 ((wire_init ^^ 3) boot)) = 1 \<and>
   resizes (Serial1 ((wire_init ^^ 3) boot)) = 2 \<and>
   resizes (Serial ((wire_init ^^ 3) boot)) = 2 \<and>
   begins (Serial1 (wire_init boot)) = 1"
proof -
  have h: "\<not> wire_inited boot"
    by (simp add: boot_def fresh_def)
  have b: "begins (Serial1 boot) = 0" "resizes (Serial1 boot) = 0" "resizes (Serial boot) = 0"
    by (simp_all add: boot_def fresh_def closed_port_def)
  have i: "begins (Serial1 (wire_init boot)) = 1"
    by (simp add: wire_init_first[OF h] b)
  have "1 \<le> (3::nat) \<and> \<not> wire_inited boot" using h by simp
  with C5_wire_init_idempotent[where N=3 and s=boot and k=0
        and pl="\<lparr>near = steady 1 1 1, far = steady 1 1 1\<rparr>"]
  have "(wire_init ^^ 3) boot = wire_init boot"
    and "wire_inited ((wire_init ^^ 3) boot)"
    and "begins (Serial1 ((wire_init ^^ 3) boot)) = Suc (begins (Serial1 boot))"
    and "resizes (Serial1 ((wire_init ^^ 3) boot)) = resizes (Serial1 boot) + 2"
    and "resizes (Serial ((wire_init ^^ 3) boot)) = resizes (Serial boot) + 2"
    by blast+
  with h b i show ?thesis by simp
qed

text \<open>
  C6, as amended. The first \<open>wire_init\<close> begins the Far endpoint with the configured
  baud rate and pins and sets its two buffer sizes; of the Near endpoint it sets the
  receive and transmit buffer sizes to 32768 and nothing else; it leaves the staging
  buffers, the delays and the console alone. Later calls change nothing.
\<close>

theorem C6_wire_init_frame:
  "Serial1 (wire_init s) =
     (if wire_inited s then Serial1 s
      else (Serial1 s)\<lparr>begins := Suc (begins (Serial1 s)), baud := WIRE_BAUD,
          framing := Some SERIAL_8N1, rx_pin := Some WIRE_RX_PIN, tx_pin := Some WIRE_TX_PIN,
          invert := False, begin_arg6 := Some 32768, rxbuf_size := 32768, txbuf_size := 32768,
          resizes := Suc (Suc (resizes (Serial1 s)))\<rparr>) \<and>
   Serial (wire_init s) =
     (if wire_inited s then Serial s
      else (Serial s)\<lparr>rxbuf_size := 32768, txbuf_size := 32768,
          resizes := Suc (Suc (resizes (Serial s)))\<rparr>) \<and>
   receive_buf (wire_init s) = receive_buf s \<and> send_buf (wire_init s) = send_buf s \<and>
   buf_wire_to_usb (wire_init s) = buf_wire_to_usb s \<and>
   buf_usb_to_wire (wire_init s) = buf_usb_to_wire s \<and>
   delays (wire_init s) = delays s \<and> console (wire_init s) = console s"
proof (cases "wire_inited s")
  case True
  then show ?thesis by (simp add: wire_init_latched)
next
  case False
  then show ?thesis
    by (simp add: wire_init_first wire_init_first_near) (simp add: wire_init_def Let_def)
qed

text \<open>
  C6 as stated fails: \<open>wire_init\<close> changes the Near endpoint. Right after reset it
  takes Near's receive buffer size from 256 to 32768 and its transmit buffer size from
  0 to 32768; after \<^verbatim>\<open>setup()\<close> has already set both to 32768, it issues the two
  buffer-size calls on Near once more.
\<close>

theorem C6_near_endpoint_changed:
  "rxbuf_size (Serial boot) = 256 \<and> rxbuf_size (Serial (wire_init boot)) = 32768 \<and>
   txbuf_size (Serial boot) = 0 \<and> txbuf_size (Serial (wire_init boot)) = 32768 \<and>
   Serial (wire_init boot) \<noteq> Serial boot \<and>
   resizes (Serial (setup_serial boot)) = 2 \<and>
   resizes (Serial (wire_init (setup_serial boot))) = 4 \<and>
   Serial (wire_init (setup_serial boot)) \<noteq> Serial (setup_serial boot)"
proof -
  have h: "\<not> wire_inited boot" "\<not> wire_inited (setup_serial boot)"
    by (simp_all add: boot_def fresh_def setup_serial_def Let_def)
  have a: "rxbuf_size (Serial boot) = 256" "txbuf_size (Serial boot) = 0"
    by (simp_all add: boot_def fresh_def closed_port_def)
  have b: "rxbuf_size (Serial (wire_init boot)) = 32768"
    "txbuf_size (Serial (wire_init boot)) = 32768"
    by (simp_all add: wire_init_first_near[OF h(1)])
  have c: "resizes (Serial (setup_serial boot)) = 2"
    by (simp add: boot_def fresh_def closed_port_def setup_serial_def Let_def
          begin_baud_def setRxBufferSize_def setTxBufferSize_def)
  have d: "resizes (Serial (wire_init (setup_serial boot))) = 4"
    by (simp add: wire_init_first_near[OF h(2)] c)
  have e: "Serial (wire_init boot) \<noteq> Serial boot"
  proof
    assume "Serial (wire_init boot) = Serial boot"
    then have "rxbuf_size (Serial (wire_init boot)) = rxbuf_size (Serial boot)" by simp
    with a b show False by simp
  qed
  have f: "Serial (wire_init (setup_serial boot)) \<noteq> Serial (setup_serial boot)"
  proof
    assume "Serial (wire_init (setup_serial boot)) = Serial (setup_serial boot)"
    then have "resizes (Serial (wire_init (setup_serial boot))) = resizes (Serial (setup_serial boot))"
      by simp
    with c d show False by simp
  qed
  show ?thesis by (intro conjI a b c d e f)
qed

text \<open>
  C7. When the source reports zero bytes available, the pump step returns and changes
  nothing: no read, no write, no flush. A bridge whose source stays empty runs any
  number of passes, each of which completes, and leaves both endpoints as they were;
  only the \<^verbatim>\<open>delay(0)\<close> calls are added.
\<close>

theorem C7_idle_source_noop:
  "(available src = 0 \<longrightarrow> pump dsrc dsnk src snk buf = Some (src, snk, buf)) \<and>
   (available (Serial1 s) = 0 \<longrightarrow>
      wire_to_usb pl s = Some s \<and>
      passes (receive_pass pl) k s = Some (s\<lparr>delays := delays s @ replicate k 0\<rparr>)) \<and>
   (available (Serial s) = 0 \<longrightarrow>
      usb_to_wire pl s = Some s \<and>
      passes (send_pass pl) k s = Some (s\<lparr>delays := delays s @ replicate k 0\<rparr>)) \<and>
   (available (Serial1 s) = 0 \<and> available (Serial s) = 0 \<longrightarrow>
      passes (bidi_pass pl) k s = Some (s\<lparr>delays := delays s @ replicate k 0\<rparr>))"
proof -
  have r: "rx (Serial1 s) = [] \<Longrightarrow>
      passes (receive_pass pl) k s = Some (s\<lparr>delays := delays s @ replicate k 0\<rparr>)"
    by (rule passes_idle[where q="\<lambda>s. rx (Serial1 s) = []"]) (simp_all add: receive_pass_idle)
  have t: "rx (Serial s) = [] \<Longrightarrow>
      passes (send_pass pl) k s = Some (s\<lparr>delays := delays s @ replicate k 0\<rparr>)"
    by (rule passes_idle[where q="\<lambda>s. rx (Serial s) = []"]) (simp_all add: send_pass_idle)
  have b: "rx (Serial1 s) = [] \<and> rx (Serial s) = [] \<Longrightarrow>
      passes (bidi_pass pl) k s = Some (s\<lparr>delays := delays s @ replicate k 0\<rparr>)"
    by (rule passes_idle[where q="\<lambda>s. rx (Serial1 s) = [] \<and> rx (Serial s) = []"])
       (simp_all add: bidi_pass_idle)
  show ?thesis
    using r t b by (simp add: available_def pump_idle wire_to_usb_idle usb_to_wire_idle)
qed

theorem C7_idle_source_noop_witness:
  "available closed_port = 0 \<and>
   pump (steady 3 2 2) (steady 3 2 2) closed_port closed_port (replicate 4 0) =
     Some (closed_port, closed_port, replicate 4 0) \<and>
   available (Serial1 (fresh 4)) = 0 \<and> available (Serial (fresh 4)) = 0 \<and>
   wire_to_usb bench (fresh 4) = Some (fresh 4) \<and>
   usb_to_wire bench (fresh 4) = Some (fresh 4) \<and>
   passes (receive_pass bench) 1000 (fresh 4) =
     Some ((fresh 4)\<lparr>delays := delays (fresh 4) @ replicate 1000 0\<rparr>) \<and>
   passes (send_pass bench) 1000 (fresh 4) =
     Some ((fresh 4)\<lparr>delays := delays (fresh 4) @ replicate 1000 0\<rparr>) \<and>
   passes (bidi_pass bench) 1000 (fresh 4) =
     Some ((fresh 4)\<lparr>delays := delays (fresh 4) @ replicate 1000 0\<rparr>) \<and>
   evs (Serial ((fresh 4)\<lparr>delays := delays (fresh 4) @ replicate 1000 0\<rparr>)) = []"
proof -
  have a: "available closed_port = 0" "available (Serial1 (fresh 4)) = 0"
    "available (Serial (fresh 4)) = 0"
    by (simp_all add: available_def fresh_def closed_port_def)
  have e: "evs (Serial ((fresh 4)\<lparr>delays := delays (fresh 4) @ replicate 1000 0\<rparr>)) = []"
    by (simp add: fresh_def closed_port_def)
  note t = C7_idle_source_noop[where src=closed_port and s="fresh 4" and pl=bench and k=1000
      and dsrc="steady 3 2 2" and dsnk="steady 3 2 2" and snk=closed_port and buf="replicate 4 0"]
  note t1 = t[THEN conjunct1, THEN mp, OF a(1)]
  note t2 = t[THEN conjunct2, THEN conjunct1, THEN mp, OF a(2)]
  note t3 = t[THEN conjunct2, THEN conjunct2, THEN conjunct1, THEN mp, OF a(3)]
  note t4 = t[THEN conjunct2, THEN conjunct2, THEN conjunct2, THEN mp, OF conjI[OF a(2) a(3)]]
  show ?thesis
    by (intro conjI a e t1 t2[THEN conjunct1] t2[THEN conjunct2] t3[THEN conjunct1]
          t3[THEN conjunct2] t4)
qed

text \<open>
  C8. In the bidirectional bridge the directions are independent. When bytes arrive at
  the Near side only, no write and no flush is made on the Near endpoint and it accepts
  no byte; when bytes arrive at the Far side only, the same holds of the Far endpoint.
  Each direction's step leaves the other direction's staging buffer as it was, and what
  it does is the same whatever that other buffer holds.
\<close>

theorem C8_bidi_directions_independent:
  "(bidi_feed pl ps s = Some s' \<and> rx (Serial1 s) = [] \<and> (\<forall>p\<in>set ps. fst p = []) \<longrightarrow>
      tx (Serial s') = tx (Serial s) \<and>
      filter (\<lambda>e. \<not> is_read e) (evs (Serial s')) = filter (\<lambda>e. \<not> is_read e) (evs (Serial s))) \<and>
   (bidi_feed pl ps s = Some s' \<and> rx (Serial s) = [] \<and> (\<forall>p\<in>set ps. snd p = []) \<longrightarrow>
      tx (Serial1 s') = tx (Serial1 s) \<and>
      filter (\<lambda>e. \<not> is_read e) (evs (Serial1 s')) = filter (\<lambda>e. \<not> is_read e) (evs (Serial1 s))) \<and>
   (wire_to_usb pl s = Some s' \<longrightarrow> buf_usb_to_wire s' = buf_usb_to_wire s) \<and>
   (usb_to_wire pl s = Some s' \<longrightarrow> buf_wire_to_usb s' = buf_wire_to_usb s) \<and>
   wire_to_usb pl (s\<lparr>buf_usb_to_wire := b\<rparr>) =
     map_option (\<lambda>t. t\<lparr>buf_usb_to_wire := b\<rparr>) (wire_to_usb pl s) \<and>
   usb_to_wire pl (s\<lparr>buf_wire_to_usb := b\<rparr>) =
     map_option (\<lambda>t. t\<lparr>buf_wire_to_usb := b\<rparr>) (usb_to_wire pl s)"
proof (intro conjI impI)
  assume "bidi_feed pl ps s = Some s' \<and> rx (Serial1 s) = [] \<and> (\<forall>p\<in>set ps. fst p = [])"
  then have "rx (Serial1 s') = [] \<and> tx (Serial s') = tx (Serial s) \<and>
     filter (\<lambda>e. \<not> is_read e) (evs (Serial s')) = filter (\<lambda>e. \<not> is_read e) (evs (Serial s))"
    using bidi_far_quiet[of pl ps s s'] by blast
  then show "tx (Serial s') = tx (Serial s)"
    and "filter (\<lambda>e. \<not> is_read e) (evs (Serial s')) = filter (\<lambda>e. \<not> is_read e) (evs (Serial s))"
    by simp_all
next
  assume "bidi_feed pl ps s = Some s' \<and> rx (Serial s) = [] \<and> (\<forall>p\<in>set ps. snd p = [])"
  then have "rx (Serial s') = [] \<and> tx (Serial1 s') = tx (Serial1 s) \<and>
     filter (\<lambda>e. \<not> is_read e) (evs (Serial1 s')) = filter (\<lambda>e. \<not> is_read e) (evs (Serial1 s))"
    using bidi_near_quiet[of pl ps s s'] by blast
  then show "tx (Serial1 s') = tx (Serial1 s)"
    and "filter (\<lambda>e. \<not> is_read e) (evs (Serial1 s')) = filter (\<lambda>e. \<not> is_read e) (evs (Serial1 s))"
    by simp_all
next
  assume "wire_to_usb pl s = Some s'"
  then show "buf_usb_to_wire s' = buf_usb_to_wire s" by (rule wire_to_usb_keeps(4))
next
  assume "usb_to_wire pl s = Some s'"
  then show "buf_wire_to_usb s' = buf_wire_to_usb s" by (rule usb_to_wire_keeps(4))
next
  show "wire_to_usb pl (s\<lparr>buf_usb_to_wire := b\<rparr>) =
     map_option (\<lambda>t. t\<lparr>buf_usb_to_wire := b\<rparr>) (wire_to_usb pl s)"
    by (rule wire_to_usb_other_buf)
next
  show "usb_to_wire pl (s\<lparr>buf_wire_to_usb := b\<rparr>) =
     map_option (\<lambda>t. t\<lparr>buf_wire_to_usb := b\<rparr>) (usb_to_wire pl s)"
    by (rule usb_to_wire_other_buf)
qed

theorem C8_bidi_directions_independent_witness:
  "(\<exists>s'. bidi_feed bench traffic_near_only (fresh 4) = Some s' \<and> rx (Serial1 (fresh 4)) = [] \<and>
         (\<forall>p\<in>set traffic_near_only. fst p = []) \<and>
         tx (Serial s') = tx (Serial (fresh 4)) \<and>
         filter (\<lambda>e. \<not> is_read e) (evs (Serial s')) =
           filter (\<lambda>e. \<not> is_read e) (evs (Serial (fresh 4))) \<and>
         tx (Serial1 s') = [0x41, 0x42, 0x43]) \<and>
   (\<exists>s'. bidi_feed bench traffic_far_only (fresh 4) = Some s' \<and> rx (Serial (fresh 4)) = [] \<and>
         (\<forall>p\<in>set traffic_far_only. snd p = []) \<and>
         tx (Serial1 s') = tx (Serial1 (fresh 4)) \<and>
         filter (\<lambda>e. \<not> is_read e) (evs (Serial1 s')) =
           filter (\<lambda>e. \<not> is_read e) (evs (Serial1 (fresh 4))) \<and>
         tx (Serial s') = PING @ [0x21]) \<and>
   (\<exists>s'. wire_to_usb bench (arrive_far PING (fresh 4)) = Some s' \<and>
         buf_usb_to_wire s' = buf_usb_to_wire (arrive_far PING (fresh 4)) \<and>
         tx (Serial s') = [0x50, 0x49, 0x4E]) \<and>
   (\<exists>s'. usb_to_wire bench (arrive_near PING (fresh 4)) = Some s' \<and>
         buf_wire_to_usb s' = buf_wire_to_usb (arrive_near PING (fresh 4)) \<and>
         tx (Serial1 s') = [0x50, 0x49, 0x4E])"
proof -
  have "\<exists>s'. bidi_feed bench traffic_near_only (fresh 4) = Some s' \<and> tx (Serial1 s') = [0x41, 0x42, 0x43]"
    by (simp add: feed_simps traffic_near_only_def)
  then obtain s1 where a1: "bidi_feed bench traffic_near_only (fresh 4) = Some s1"
    and v1: "tx (Serial1 s1) = [0x41, 0x42, 0x43]" by blast
  have q1: "rx (Serial1 (fresh 4)) = []" by (simp add: fresh_def closed_port_def)
  have n1: "\<forall>p\<in>set traffic_near_only. fst p = []" by (simp add: traffic_near_only_def)
  note c1 = C8_bidi_directions_independent[THEN conjunct1, THEN mp, OF conjI[OF a1 conjI[OF q1 n1]]]
  have "\<exists>s'. bidi_feed bench traffic_far_only (fresh 4) = Some s' \<and> tx (Serial s') = PING @ [0x21]"
    by (simp add: feed_simps traffic_far_only_def)
  then obtain s2 where a2: "bidi_feed bench traffic_far_only (fresh 4) = Some s2"
    and v2: "tx (Serial s2) = PING @ [0x21]" by blast
  have q2: "rx (Serial (fresh 4)) = []" by (simp add: fresh_def closed_port_def)
  have n2: "\<forall>p\<in>set traffic_far_only. snd p = []" by (simp add: traffic_far_only_def)
  note c2 = C8_bidi_directions_independent[THEN conjunct2, THEN conjunct1, THEN mp,
      OF conjI[OF a2 conjI[OF q2 n2]]]
  have "\<exists>s'. wire_to_usb bench (arrive_far PING (fresh 4)) = Some s' \<and> tx (Serial s') = [0x50, 0x49, 0x4E]"
    by (simp add: feed_simps)
  then obtain s3 where a3: "wire_to_usb bench (arrive_far PING (fresh 4)) = Some s3"
    and v3: "tx (Serial s3) = [0x50, 0x49, 0x4E]" by blast
  note c3 = C8_bidi_directions_independent[THEN conjunct2, THEN conjunct2, THEN conjunct1,
      THEN mp, OF a3]
  have "\<exists>s'. usb_to_wire bench (arrive_near PING (fresh 4)) = Some s' \<and> tx (Serial1 s') = [0x50, 0x49, 0x4E]"
    by (simp add: feed_simps)
  then obtain s4 where a4: "usb_to_wire bench (arrive_near PING (fresh 4)) = Some s4"
    and v4: "tx (Serial1 s4) = [0x50, 0x49, 0x4E]" by blast
  note c4 = C8_bidi_directions_independent[THEN conjunct2, THEN conjunct2, THEN conjunct2,
      THEN conjunct1, THEN mp, OF a4]
  show ?thesis
    by (intro conjI exI[of _ s1] exI[of _ s2] exI[of _ s3] exI[of _ s4] a1 a2 a3 a4 v1 v2 v3 v4
          q1 q2 n1 n2 c1[THEN conjunct1] c1[THEN conjunct2] c2[THEN conjunct1] c2[THEN conjunct2]
          c3 c4)
qed

text \<open>
  C9. In a pump step that returns, with a staging buffer of at least one byte: if the
  sink has accepted at least one byte, the calls made on the sink are one or more
  writes, which together accept the bytes moved, followed by exactly one flush, with the
  flag false; if no byte was moved, no call at all is made on the sink.
\<close>

theorem C9_flush_once_per_moving_tick:
  assumes "pump dsrc dsnk src snk buf = Some (src', snk', buf')" and "buf \<noteq> []"
  shows "(length (tx snk) < length (tx snk') \<longrightarrow>
            (\<exists>ws. evs snk' = evs snk @ ws @ [Flush False] \<and> ws \<noteq> [] \<and>
                  (\<forall>e\<in>set ws. is_write e) \<and>
                  sum_list (map accepted ws) = length (tx snk') - length (tx snk))) \<and>
         (length (tx snk') = length (tx snk) \<longrightarrow> evs snk' = evs snk)"
proof (cases "rx src = []")
  case True
  from assms(1) True have "snk' = snk" by (simp add: pump_idle)
  then show ?thesis by simp
next
  case False
  from pump_result[OF assms(1) False] obtain ws where
    s: "snk' = snk\<lparr>tx := tx snk @ take (got dsrc src buf) (rx src), evs := evs snk @ ws @ [Flush False]\<rparr>"
    and w: "\<forall>e\<in>set ws. is_write e" "0 < got dsrc src buf \<longrightarrow> ws \<noteq> []"
       "sum_list (map accepted ws) = got dsrc src buf" by (elim exE conjE)
  have gl: "got dsrc src buf \<le> length (rx src)" by (rule got_le(1))
  have "tx snk' = tx snk @ take (got dsrc src buf) (rx src)" unfolding s by simp
  then have l: "length (tx snk') = length (tx snk) + got dsrc src buf"
    using gl by simp
  have e: "evs snk' = evs snk @ ws @ [Flush False]" unfolding s by simp
  have gp: "0 < got dsrc src buf" by (rule got_pos[OF False assms(2)])
  then have ne: "ws \<noteq> []" using w(2) by simp
  have sm: "sum_list (map accepted ws) = length (tx snk') - length (tx snk)"
    unfolding l w(3) by simp
  have ex: "\<exists>ws. evs snk' = evs snk @ ws @ [Flush False] \<and> ws \<noteq> [] \<and>
                  (\<forall>e\<in>set ws. is_write e) \<and>
                  sum_list (map accepted ws) = length (tx snk') - length (tx snk)"
    by (intro exI[of _ ws] conjI e ne w(1) sm)
  have nl: "length (tx snk') \<noteq> length (tx snk)" using l gp by arith
  show ?thesis
  proof (intro conjI impI)
    show "\<exists>ws. evs snk' = evs snk @ ws @ [Flush False] \<and> ws \<noteq> [] \<and>
                  (\<forall>e\<in>set ws. is_write e) \<and>
                  sum_list (map accepted ws) = length (tx snk') - length (tx snk)" by (rule ex)
  next
    assume "length (tx snk') = length (tx snk)"
    with nl show "evs snk' = evs snk" by blast
  qed
qed

theorem C9_flush_once_per_moving_tick_witness:
  "pump (steady 4 0 0) (steady 3 2 2) (arrive PING closed_port) closed_port (replicate 8 0) =
     Some (closed_port\<lparr>evs := [Read 4 4]\<rparr>,
           closed_port\<lparr>tx := PING, evs := [Write 4 2, Write 2 2, Flush False]\<rparr>,
           PING @ replicate 4 0) \<and>
   replicate 8 (0::byte) \<noteq> [] \<and>
   length (tx closed_port)
     < length (tx (closed_port\<lparr>tx := PING, evs := [Write 4 2, Write 2 2, Flush False]\<rparr>)) \<and>
   (\<exists>ws. evs (closed_port\<lparr>tx := PING, evs := [Write 4 2, Write 2 2, Flush False]\<rparr>) =
           evs closed_port @ ws @ [Flush False] \<and> ws \<noteq> [] \<and>
         (\<forall>e\<in>set ws. is_write e) \<and>
         sum_list (map accepted ws) =
           length (tx (closed_port\<lparr>tx := PING, evs := [Write 4 2, Write 2 2, Flush False]\<rparr>))
             - length (tx closed_port)) \<and>
   pump (steady 4 0 0) (steady 3 2 2) closed_port closed_port (replicate 8 0) =
     Some (closed_port, closed_port, replicate 8 0) \<and>
   evs closed_port = []"
proof -
  have p: "pump (steady 4 0 0) (steady 3 2 2) (arrive PING closed_port) closed_port (replicate 8 0) =
     Some (closed_port\<lparr>evs := [Read 4 4]\<rparr>,
           closed_port\<lparr>tx := PING, evs := [Write 4 2, Write 2 2, Flush False]\<rparr>,
           PING @ replicate 4 0)"
    by (simp add: run_simps)
  have b: "replicate 8 (0::byte) \<noteq> []" by simp
  have l: "length (tx closed_port)
     < length (tx (closed_port\<lparr>tx := PING, evs := [Write 4 2, Write 2 2, Flush False]\<rparr>))"
    by (simp add: closed_port_def PING_def)
  have q: "pump (steady 4 0 0) (steady 3 2 2) closed_port closed_port (replicate 8 0) =
     Some (closed_port, closed_port, replicate 8 0)"
    by (simp add: pump_idle closed_port_def)
  have e: "evs closed_port = []" by (simp add: closed_port_def)
  note t = C9_flush_once_per_moving_tick[OF p b, THEN conjunct1, THEN mp, OF l]
  show ?thesis by (intro conjI p b l t q e)
qed

text \<open>
  C10. The write loop returns if and only if the counts the sink's writes grant reach
  the number of bytes left to write. When every write accepts at least one byte, the
  pump step returns, and the bytes it has written are the bytes it has read; when
  every write accepts nothing, bytes are available and the buffer is not empty, the
  pump step does not return.
\<close>

theorem C10_write_loop_completes_iff:
  "((\<exists>snk'. write_all d buf n off snk = Some snk') \<longleftrightarrow>
      (\<exists>m. n - off \<le> (\<Sum>i<m. wr_grant d (writes_done snk + i)))) \<and>
   ((\<forall>k. 1 \<le> wr_grant dsnk k) \<longrightarrow>
      (\<exists>src' snk' buf'. pump dsrc dsnk src snk buf = Some (src', snk', buf') \<and>
         rx src = take (length (rx src) - length (rx src')) (rx src) @ rx src' \<and>
         tx snk' = tx snk @ take (length (rx src) - length (rx src')) (rx src))) \<and>
   ((\<forall>k. wr_grant dsnk k = 0) \<and> available src \<noteq> 0 \<and> buf \<noteq> [] \<longrightarrow>
      pump dsrc dsnk src snk buf = None)"
proof (intro conjI impI)
  show "(\<exists>snk'. write_all d buf n off snk = Some snk') \<longleftrightarrow>
      (\<exists>m. n - off \<le> (\<Sum>i<m. wr_grant d (writes_done snk + i)))"
    using write_all_returns_if write_all_returns_only_if by blast
next
  assume g: "\<forall>k. 1 \<le> wr_grant dsnk k"
  show "\<exists>src' snk' buf'. pump dsrc dsnk src snk buf = Some (src', snk', buf') \<and>
         rx src = take (length (rx src) - length (rx src')) (rx src) @ rx src' \<and>
         tx snk' = tx snk @ take (length (rx src) - length (rx src')) (rx src)"
  proof (cases "rx src = []")
    case True
    then show ?thesis by (simp add: pump_idle)
  next
    case False
    let ?g = "got dsrc src buf"
    from write_all_progress[OF g] obtain s1 where
      "write_all dsnk (take ?g (rx src) @ drop ?g buf) ?g 0 snk = Some s1" by blast
    then obtain src' snk' buf' where p: "pump dsrc dsnk src snk buf = Some (src', snk', buf')"
      by (simp add: pump_busy[OF False])
    from pump_result[OF p False] obtain ws where
      a: "src' = src\<lparr>rx := drop ?g (rx src),
                      evs := evs src @ [Read (min (length (rx src)) (length buf)) ?g]\<rparr>"
      and b: "snk' = snk\<lparr>tx := tx snk @ take ?g (rx src), evs := evs snk @ ws @ [Flush False]\<rparr>"
      by (elim exE conjE)
    have "rx src' = drop ?g (rx src)" unfolding a by simp
    moreover have "tx snk' = tx snk @ take ?g (rx src)" unfolding b by simp
    moreover have "length (rx src) - length (drop ?g (rx src)) = ?g"
      using got_le(1)[of dsrc src buf] by simp
    ultimately show ?thesis using p by simp
  qed
next
  assume a: "(\<forall>k. wr_grant dsnk k = 0) \<and> available src \<noteq> 0 \<and> buf \<noteq> []"
  then have ne: "rx src \<noteq> []" by (auto simp: available_def)
  with a have "0 < got dsrc src buf" by (simp add: got_pos)
  with a have "write_all dsnk (take (got dsrc src buf) (rx src) @ drop (got dsrc src buf) buf)
                 (got dsrc src buf) 0 snk = None"
    by (simp add: write_all_stuck)
  then show "pump dsrc dsnk src snk buf = None" by (simp add: pump_busy[OF ne])
qed

theorem C10_write_loop_completes_iff_witness:
  "(\<forall>k. 1 \<le> wr_grant (steady 3 2 2) k) \<and>
   (\<exists>src' snk' buf'.
      pump (steady 4 0 0) (steady 3 2 2) (arrive PING closed_port) closed_port (replicate 8 0) =
        Some (src', snk', buf') \<and>
      rx (arrive PING closed_port) =
        take (length (rx (arrive PING closed_port)) - length (rx src')) (rx (arrive PING closed_port))
          @ rx src' \<and>
      tx snk' = tx closed_port @
        take (length (rx (arrive PING closed_port)) - length (rx src')) (rx (arrive PING closed_port))) \<and>
   (\<forall>k. wr_grant stalled k = 0) \<and> available (arrive PING closed_port) \<noteq> 0 \<and>
   replicate 8 (0::byte) \<noteq> [] \<and>
   pump (steady 4 0 0) stalled (arrive PING closed_port) closed_port (replicate 8 0) = None"
proof -
  have g: "\<forall>k. 1 \<le> wr_grant (steady 3 2 2) k" by (simp add: steady_def)
  have z: "\<forall>k. wr_grant stalled k = 0" by (simp add: stalled_def steady_def)
  have a: "available (arrive PING closed_port) \<noteq> 0"
    by (simp add: available_def arrive_def closed_port_def PING_def)
  have b: "replicate 8 (0::byte) \<noteq> []" by simp
  note t1 = C10_write_loop_completes_iff[THEN conjunct2, THEN conjunct1, THEN mp, OF g]
  note t2 = C10_write_loop_completes_iff[THEN conjunct2, THEN conjunct2, THEN mp,
      OF conjI[OF z conjI[OF a b]]]
  show ?thesis by (intro conjI g z a b t1 t2)
qed

end
